theory Spec2Isabelle
  imports Main "HOL-Library.Word" "HOL-Library.Sublist"
begin

section \<open>Binary sniffer: \<open>detectMimeType\<close> of the import route\<close>

text \<open>
  A Node \<open>Buffer\<close> is a sequence of bytes. Reading \<open>buffer[i]\<close> past the end gives
  \<open>undefined\<close>, which is \<open>===\<close> to no number, so a comparison \<open>buffer[i] === b\<close>
  is false there: \<open>byteIs\<close> writes that out.
\<close>

type_synonym byte = "8 word"

type_synonym buffer = "byte list"

datatype mime = ImagePng | ImageJpeg | ImageGif | ImageWebp

definition byteIs :: "buffer \<Rightarrow> nat \<Rightarrow> byte \<Rightarrow> bool" where
  "byteIs buffer i b = (i < length buffer \<and> buffer ! i = b)"

text \<open>The result \<open>null\<close> of the source ("unknown") is \<open>None\<close>.\<close>

definition detectMimeType :: "buffer \<Rightarrow> mime option" where
  "detectMimeType buffer =
    (if length buffer < 4 then None
     else if byteIs buffer 0 0x89 \<and> byteIs buffer 1 0x50 \<and> byteIs buffer 2 0x4e \<and> byteIs buffer 3 0x47
       then Some ImagePng
     else if byteIs buffer 0 0xff \<and> byteIs buffer 1 0xd8 \<and> byteIs buffer 2 0xff
       then Some ImageJpeg
     else if byteIs buffer 0 0x47 \<and> byteIs buffer 1 0x49 \<and> byteIs buffer 2 0x46 \<and> byteIs buffer 3 0x38
       then Some ImageGif
     else if length buffer \<ge> 12 \<and>
         byteIs buffer 0 0x52 \<and> byteIs buffer 1 0x49 \<and> byteIs buffer 2 0x46 \<and> byteIs buffer 3 0x46 \<and>
         byteIs buffer 8 0x57 \<and> byteIs buffer 9 0x45 \<and> byteIs buffer 10 0x42 \<and> byteIs buffer 11 0x50
       then Some ImageWebp
     else None)"

subsection \<open>Leading bytes\<close>

lemma take3_eq:
  "take 3 xs = [a, b, c] \<longleftrightarrow> 3 \<le> length xs \<and> xs ! 0 = a \<and> xs ! 1 = b \<and> xs ! 2 = c"
  by (cases xs; cases "tl xs"; cases "tl (tl xs)") (auto simp: numeral_eq_Suc)

lemma take4_eq:
  "take 4 xs = [a, b, c, d] \<longleftrightarrow>
     4 \<le> length xs \<and> xs ! 0 = a \<and> xs ! 1 = b \<and> xs ! 2 = c \<and> xs ! 3 = d"
  by (cases xs; cases "tl xs"; cases "tl (tl xs)"; cases "tl (tl (tl xs))")
    (auto simp: numeral_eq_Suc)

lemma sig3_take:
  "(byteIs buf 0 a \<and> byteIs buf 1 b \<and> byteIs buf 2 c) = (take 3 buf = [a, b, c])"
  by (auto simp: byteIs_def take3_eq)

lemma sig4_take:
  "(byteIs buf 0 a \<and> byteIs buf 1 b \<and> byteIs buf 2 c \<and> byteIs buf 3 d) = (take 4 buf = [a, b, c, d])"
  by (auto simp: byteIs_def take4_eq)

lemma sig4_drop8_take:
  "(byteIs buf 8 a \<and> byteIs buf 9 b \<and> byteIs buf 10 c \<and> byteIs buf 11 d)
     = (take 4 (drop 8 buf) = [a, b, c, d])"
  by (auto simp: byteIs_def take4_eq)

text \<open>
  C6, as the code has it. The sniffer is a function of the bytes alone (it has no file
  name among its arguments) and it is total. It answers PNG, GIF and WEBP as stated;
  JPEG needs \<open>FF D8 FF\<close> at the start of a buffer of at least four bytes, because every
  buffer shorter than four bytes is answered "unknown" before any signature is compared.
\<close>

theorem detectMimeType_magic:
  "detectMimeType buf =
    (if length buf < 4 then None
     else if take 4 buf = [0x89, 0x50, 0x4e, 0x47] then Some ImagePng
     else if take 3 buf = [0xff, 0xd8, 0xff] then Some ImageJpeg
     else if take 4 buf = [0x47, 0x49, 0x46, 0x38] then Some ImageGif
     else if 12 \<le> length buf \<and> take 4 buf = [0x52, 0x49, 0x46, 0x46]
          \<and> take 4 (drop 8 buf) = [0x57, 0x45, 0x42, 0x50] then Some ImageWebp
     else None)"
proof -
  have webp:
    "(length buf \<ge> 12 \<and>
       byteIs buf 0 0x52 \<and> byteIs buf 1 0x49 \<and> byteIs buf 2 0x46 \<and> byteIs buf 3 0x46 \<and>
       byteIs buf 8 0x57 \<and> byteIs buf 9 0x45 \<and> byteIs buf 10 0x42 \<and> byteIs buf 11 0x50)
     = (12 \<le> length buf \<and> take 4 buf = [0x52, 0x49, 0x46, 0x46]
          \<and> take 4 (drop 8 buf) = [0x57, 0x45, 0x42, 0x50])"
    using sig4_take [of buf "0x52" "0x49" "0x46" "0x46"]
      sig4_drop8_take [of buf "0x57" "0x45" "0x42" "0x50"]
    by blast
  show ?thesis
    unfolding detectMimeType_def webp sig4_take sig3_take ..
qed

theorem detectMimeType_magic_witness:
  "detectMimeType [0x89, 0x50, 0x4e, 0x47] = Some ImagePng
   \<and> detectMimeType [0xff, 0xd8, 0xff, 0xe0] = Some ImageJpeg
   \<and> detectMimeType [0x47, 0x49, 0x46, 0x38, 0x39, 0x61] = Some ImageGif
   \<and> detectMimeType [0x52, 0x49, 0x46, 0x46, 0, 0, 0, 0, 0x57, 0x45, 0x42, 0x50] = Some ImageWebp
   \<and> detectMimeType [0x52, 0x49, 0x46, 0x46, 0, 0, 0, 0, 0x57, 0x45, 0x42] = None
   \<and> detectMimeType [0x89, 0x50, 0x4e] = None
   \<and> detectMimeType [] = None"
  using detectMimeType_magic [of "[0x89, 0x50, 0x4e, 0x47]"]
    detectMimeType_magic [of "[0xff, 0xd8, 0xff, 0xe0]"]
    detectMimeType_magic [of "[0x47, 0x49, 0x46, 0x38, 0x39, 0x61]"]
    detectMimeType_magic [of "[0x52, 0x49, 0x46, 0x46, 0, 0, 0, 0, 0x57, 0x45, 0x42, 0x50]"]
    detectMimeType_magic [of "[0x52, 0x49, 0x46, 0x46, 0, 0, 0, 0, 0x57, 0x45, 0x42]"]
    detectMimeType_magic [of "[0x89, 0x50, 0x4e]"]
    detectMimeType_magic [of "[]"]
  by simp

text \<open>
  C6 as stated fails on the three-byte buffer \<open>FF D8 FF\<close>: it begins with the JPEG
  signature and is not shorter than it, and the sniffer answers "unknown".
\<close>

theorem detectMimeType_jpeg3_counterexample:
  "take 3 [0xff, 0xd8, 0xff :: byte] = [0xff, 0xd8, 0xff]
   \<and> detectMimeType [0xff, 0xd8, 0xff] = None
   \<and> detectMimeType [0xff, 0xd8, 0xff] \<noteq> Some ImageJpeg"
  by (simp add: detectMimeType_def)

section \<open>CSV parser: \<open>parseCSV\<close> of \<open>lib/csv.ts\<close>\<close>

text \<open>
  The source walks the text with an index \<open>i\<close> and four variables (\<open>rows\<close>, \<open>row\<close>,
  \<open>field\<close>, \<open>inQuotes\<close>). The model keeps them in a record; one pass of the
  \<open>while\<close> body is \<open>parseCSV_step\<close>, the loop is \<open>parseCSV_loop\<close>. Strings are
  lists of characters; \<open>field += ch\<close> and \<open>push\<close> append at the end.
\<close>

abbreviation dquote :: char where "dquote \<equiv> CHR 0x22"

abbreviation comma :: char where "comma \<equiv> CHR '',''"

abbreviation cr :: char where "cr \<equiv> CHR 0x0D"

abbreviation lf :: char where "lf \<equiv> CHR 0x0A"

record csv_state =
  csvRows :: "string list list"
  csvRow :: "string list"
  csvField :: string
  inQuotes :: bool
  csvPos :: nat

definition parseCSV_step :: "string \<Rightarrow> csv_state \<Rightarrow> csv_state" where
  "parseCSV_step inp s =
    (let ch = inp ! csvPos s in
     if inQuotes s then
       (if ch = dquote then
          (if csvPos s + 1 < length inp \<and> inp ! (csvPos s + 1) = dquote
           then s\<lparr>csvField := csvField s @ [dquote], csvPos := csvPos s + 2\<rparr>
           else s\<lparr>inQuotes := False, csvPos := csvPos s + 1\<rparr>)
        else s\<lparr>csvField := csvField s @ [ch], csvPos := csvPos s + 1\<rparr>)
     else
       (if ch = dquote then s\<lparr>inQuotes := True, csvPos := csvPos s + 1\<rparr>
        else if ch = comma then s\<lparr>csvRow := csvRow s @ [csvField s], csvField := [], csvPos := csvPos s + 1\<rparr>
        else if ch = cr then
          s\<lparr>csvRows := csvRows s @ [csvRow s @ [csvField s]], csvRow := [], csvField := [],
            csvPos := (if csvPos s + 1 < length inp \<and> inp ! (csvPos s + 1) = lf
                    then csvPos s + 2 else csvPos s + 1)\<rparr>
        else if ch = lf then
          s\<lparr>csvRows := csvRows s @ [csvRow s @ [csvField s]], csvRow := [], csvField := [], csvPos := csvPos s + 1\<rparr>
        else s\<lparr>csvField := csvField s @ [ch], csvPos := csvPos s + 1\<rparr>))"

lemma parseCSV_step_advances: "csvPos s < csvPos (parseCSV_step inp s)"
  by (simp add: parseCSV_step_def Let_def)

function parseCSV_loop :: "string \<Rightarrow> csv_state \<Rightarrow> csv_state" where
  "parseCSV_loop inp s =
    (if csvPos s < length inp then parseCSV_loop inp (parseCSV_step inp s) else s)"
  by pat_completeness auto
termination
  by (relation "measure (\<lambda>(inp, s). length inp - csvPos s)")
    (simp_all add: diff_less_mono2 parseCSV_step_advances)

declare parseCSV_loop.simps [simp del]

definition parseCSV :: "string \<Rightarrow> string list list" where
  "parseCSV inp =
    (let s = parseCSV_loop inp \<lparr>csvRows = [], csvRow = [], csvField = [], inQuotes = False, csvPos = 0\<rparr>
     in if csvField s \<noteq> [] \<or> length (csvRow s) > 0 then csvRows s @ [csvRow s @ [csvField s]] else csvRows s)"

function csv_rules :: "bool \<Rightarrow> string list list \<Rightarrow> string list \<Rightarrow> string \<Rightarrow> string \<Rightarrow> string list list" where
  "csv_rules q rs r f [] = (if f \<noteq> [] \<or> r \<noteq> [] then rs @ [r @ [f]] else rs)"
| "csv_rules True rs r f (c # cs) =
    (if c = dquote then
       (case cs of
          [] \<Rightarrow> csv_rules False rs r f cs
        | d # ds \<Rightarrow> if d = dquote then csv_rules True rs r (f @ [dquote]) ds
                   else csv_rules False rs r f cs)
     else csv_rules True rs r (f @ [c]) cs)"
| "csv_rules False rs r f (c # cs) =
    (if c = dquote then csv_rules True rs r f cs
     else if c = comma then csv_rules False rs (r @ [f]) [] cs
     else if c = cr then
       (case cs of
          [] \<Rightarrow> csv_rules False (rs @ [r @ [f]]) [] [] cs
        | d # ds \<Rightarrow> if d = lf then csv_rules False (rs @ [r @ [f]]) [] [] ds
                   else csv_rules False (rs @ [r @ [f]]) [] [] cs)
     else if c = lf then csv_rules False (rs @ [r @ [f]]) [] [] cs
     else csv_rules False rs r (f @ [c]) cs)"
  by pat_completeness auto
termination
  by (relation "measure (\<lambda>(q, rs, r, f, inp). length inp)") auto

definition csv_finish :: "csv_state \<Rightarrow> string list list" where
  "csv_finish s = (if csvField s \<noteq> [] \<or> length (csvRow s) > 0 then csvRows s @ [csvRow s @ [csvField s]] else csvRows s)"

lemma loop_rules:
  "csvPos s \<le> length inp \<Longrightarrow>
   csv_finish (parseCSV_loop inp s) = csv_rules (inQuotes s) (csvRows s) (csvRow s) (csvField s) (drop (csvPos s) inp)"
proof (induction inp s rule: parseCSV_loop.induct)
  case (1 inp s)
  show ?case
  proof (cases "csvPos s < length inp")
    case False
    with "1.prems" show ?thesis
      by (simp add: parseCSV_loop.simps [of inp s] csv_finish_def)
  next
    case True
    let ?s' = "parseCSV_step inp s"
    have le': "csvPos ?s' \<le> length inp"
      using True by (auto simp: parseCSV_step_def Let_def)
    have d0: "drop (csvPos s) inp = inp ! csvPos s # drop (Suc (csvPos s)) inp"
      using True by (simp add: Cons_nth_drop_Suc)
    have d1: "Suc (csvPos s) < length inp \<Longrightarrow>
        drop (Suc (csvPos s)) inp = inp ! Suc (csvPos s) # drop (Suc (Suc (csvPos s))) inp"
      by (simp add: Cons_nth_drop_Suc)
    have d2: "\<not> Suc (csvPos s) < length inp \<Longrightarrow> drop (Suc (csvPos s)) inp = []"
      by simp
    have step: "csv_rules (inQuotes s) (csvRows s) (csvRow s) (csvField s) (drop (csvPos s) inp)
        = csv_rules (inQuotes ?s') (csvRows ?s') (csvRow ?s') (csvField ?s') (drop (csvPos ?s') inp)"
    proof (cases "inQuotes s")
      case True
      then show ?thesis
        using d1 d2 by (cases "Suc (csvPos s) < length inp") (simp_all add: d0 parseCSV_step_def Let_def)
    next
      case False
      then show ?thesis
        using d1 d2 by (cases "Suc (csvPos s) < length inp") (simp_all add: d0 parseCSV_step_def Let_def)
    qed
    have "csv_finish (parseCSV_loop inp s) = csv_finish (parseCSV_loop inp ?s')"
      using True by (simp add: parseCSV_loop.simps [of inp s])
    also have "\<dots> = csv_rules (inQuotes ?s') (csvRows ?s') (csvRow ?s') (csvField ?s') (drop (csvPos ?s') inp)"
      using "1.IH" [OF True le'] .
    finally show ?thesis using step by simp
  qed
qed

lemma parseCSV_eq_rules: "parseCSV inp = csv_rules False [] [] [] inp"
  using loop_rules [of "\<lparr>csvRows = [], csvRow = [], csvField = [], inQuotes = False, csvPos = 0\<rparr>" inp]
  by (simp add: parseCSV_def csv_finish_def Let_def)

text \<open>
  C8, as the code has it. \<open>csv_rules\<close> is the rule set of the claim, read off character by
  character from the text that is left: inside quotes a doubled quote gives one quote and
  stays quoted, a single quote leaves the quoted state; outside quotes a comma ends the field
  and CR, CR LF or LF end one row. At the end of the text the pending row is emitted when
  its pending field is not empty or it already holds a field. The index loop of the source
  computes exactly this, on every input (both functions are total), and the quoted field
  \<open>"a,b""c"\<close> gives the one field \<open>a,b"c\<close>.
\<close>

theorem parseCSV_follows_rules:
  "parseCSV inp = csv_rules False [] [] [] inp
   \<and> parseCSV (dquote # ''a,b'' @ [dquote, dquote] @ ''c'' @ [dquote]) = [[''a,b'' @ [dquote] @ ''c'']]"
  by (simp add: parseCSV_eq_rules)

theorem parseCSV_follows_rules_witness:
  "parseCSV (''x,y'' @ [cr, lf] @ ''z'' @ [cr] @ ''w'' @ [lf] @ ''u,'')
     = [[''x'', ''y''], [''z''], [''w''], [''u'', []]]"
  using parseCSV_follows_rules [of "''x,y'' @ [cr, lf] @ ''z'' @ [cr] @ ''w'' @ [lf] @ ''u,''"]
  by simp

text \<open>
  C8 as stated fails on a trailing row that consists of one empty quoted field: with a line
  terminator after it the row with that one empty field is emitted, without one nothing is.
\<close>

theorem parseCSV_trailing_counterexample:
  "parseCSV (''x'' @ [lf, dquote, dquote, lf]) = [[''x''], [[]]]
   \<and> parseCSV (''x'' @ [lf, dquote, dquote]) = [[''x'']]
   \<and> parseCSV [dquote, dquote] = []"
  by (simp add: parseCSV_eq_rules)

section \<open>Strings, thrown values and uploaded files\<close>

text \<open>
  A JavaScript string is a sequence of UTF-16 code units. The model's strings are lists of
  \<open>char\<close>, the code units \<open>0..255\<close>; on them \<open>toLowerCase\<close> maps \<open>A..Z\<close> and the
  upper-case letters of Latin-1 to their lower-case letters, and the class \<open>\s\<close> of a
  regular expression holds the code units 9 to 13, 32 and 160.
\<close>

definition toLowerChar :: "char \<Rightarrow> char" where
  "toLowerChar c =
    (let n = (of_char c :: nat) in
     if (65 \<le> n \<and> n \<le> 90) \<or> (192 \<le> n \<and> n \<le> 222 \<and> n \<noteq> 215)
     then char_of (n + 32) else c)"

definition toLowerCase :: "string \<Rightarrow> string" where
  "toLowerCase s = map toLowerChar s"

definition isWhitespace :: "char \<Rightarrow> bool" where
  "isWhitespace c = ((of_char c :: nat) \<in> {9, 10, 11, 12, 13, 32, 160})"

text \<open>\<open>s.startsWith(p)\<close> and \<open>s.includes(p)\<close> (\<open>stringIncludes\<close>).\<close>

definition startsWith :: "string \<Rightarrow> string \<Rightarrow> bool" where
  "startsWith s p = (take (length p) s = p)"

fun stringIncludes :: "string \<Rightarrow> string \<Rightarrow> bool" where
  "stringIncludes [] p = (p = [])"
| "stringIncludes (c # cs) p = (startsWith (c # cs) p \<or> stringIncludes cs p)"

text \<open>
  \<open>s.lastIndexOf(c)\<close> for a one-character \<open>c\<close>: the index of the last occurrence,
  \<open>None\<close> for the \<open>-1\<close> of the source. The scan keeps the index of the occurrence seen
  last.
\<close>

fun lastIndexOf_scan :: "char \<Rightarrow> string \<Rightarrow> nat \<Rightarrow> nat option \<Rightarrow> nat option" where
  "lastIndexOf_scan c [] i seen = seen"
| "lastIndexOf_scan c (x # xs) i seen = lastIndexOf_scan c xs (Suc i) (if x = c then Some i else seen)"

definition lastIndexOf :: "string \<Rightarrow> char \<Rightarrow> nat option" where
  "lastIndexOf s c = lastIndexOf_scan c s 0 None"

text \<open>
  \<open>baseName.replace(/\s+/g, "-")\<close>: every maximal run of whitespace becomes one hyphen.
\<close>

function replaceWhitespaceRuns :: "string \<Rightarrow> string" where
  "replaceWhitespaceRuns [] = []"
| "replaceWhitespaceRuns (c # cs) =
    (if isWhitespace c then CHR ''-'' # replaceWhitespaceRuns (dropWhile isWhitespace cs)
     else c # replaceWhitespaceRuns cs)"
  by pat_completeness auto
termination
  by (relation "measure length") (simp_all add: length_dropWhile_le less_Suc_eq_le)

text \<open>
  A thrown value: whether it is an \<open>Error\<close> instance, its \<open>message\<close> and its
  \<open>status\<close> property (absent on most errors). A value of type \<open>thrown + 'a\<close> is the
  outcome of an operation that may throw.
\<close>

datatype thrown = Thrown (instanceofError: bool) (message: string) (status: "nat option")

text \<open>The \<open>TypeError\<close> of reading a property of \<open>undefined\<close>.\<close>

definition typeErrorUndefined :: "string \<Rightarrow> thrown" where
  "typeErrorUndefined property =
     Thrown True (''Cannot read properties of undefined (reading '' @ [CHR 0x27] @ property
                    @ [CHR 0x27] @ '')'') None"

text \<open>
  An uploaded \<open>File\<close>: its name, and what \<open>text()\<close> and \<open>arrayBuffer()\<close> give when the
  file is read.
\<close>

record upload =
  fileName :: string
  fileText :: "thrown + string"
  fileBytes :: "thrown + buffer"

text \<open>
  An entry of a field of the form data is a \<open>File\<close> or a string. The import route takes
  the entries of the field \<open>files\<close> with \<open>formData.getAll("files") as File[]\<close>, a cast
  that checks nothing: a text field of that name stands among the files as a string, which
  has no \<open>name\<close>. \<open>entryName\<close> is the \<open>name\<close> of an entry, \<open>None\<close> for \<open>undefined\<close>.
\<close>

datatype formEntry = FileEntry upload | TextEntry string

fun entryName :: "formEntry \<Rightarrow> string option" where
  "entryName (FileEntry f) = Some (fileName f)"
| "entryName (TextEntry s) = None"

section \<open>File grouper: \<open>groupFiles\<close> of the import route\<close>

definition IMAGE_EXTENSIONS :: "string set" where
  "IMAGE_EXTENSIONS = {''.png'', ''.jpg'', ''.jpeg'', ''.gif'', ''.webp''}"

definition HTML_EXTENSIONS :: "string set" where
  "HTML_EXTENSIONS = {''.html'', ''.htm''}"

definition getExtension :: "string \<Rightarrow> string" where
  "getExtension filename =
    (case lastIndexOf filename (CHR ''.'') of
       Some dot \<Rightarrow> toLowerCase (drop dot filename)
     | None \<Rightarrow> [])"

definition getBaseName :: "string \<Rightarrow> string" where
  "getBaseName filename =
    (case lastIndexOf filename (CHR ''.'') of
       Some dot \<Rightarrow> take dot filename
     | None \<Rightarrow> filename)"

record FileGroup =
  name :: string
  slug :: string
  htmlFile :: "upload option"
  imageFiles :: "upload list"

text \<open>
  The lines of the diagnostic log that the grouper writes, by kind and content (the time
  stamp of a line is left out).
\<close>

datatype groupLog =
  LogGrouping nat nat
  | LogGroup string string "string list"
  | LogUnmatched "string list"

text \<open>The first loop: files are sorted into documents and images, others are dropped.\<close>

fun classifyFiles :: "upload list \<Rightarrow> upload list \<times> upload list \<Rightarrow> upload list \<times> upload list" where
  "classifyFiles [] acc = acc"
| "classifyFiles (file # files) (htmlFiles, images) =
    (let ext = getExtension (fileName file) in
     if ext \<in> HTML_EXTENSIONS then classifyFiles files (htmlFiles @ [file], images)
     else if ext \<in> IMAGE_EXTENSIONS then classifyFiles files (htmlFiles, images @ [file])
     else classifyFiles files (htmlFiles, images))"

text \<open>The inner loop over the images, for one document.\<close>

fun matchImages :: "string \<Rightarrow> upload list \<Rightarrow> upload list \<times> string set \<Rightarrow> upload list \<times> string set" where
  "matchImages baseName [] acc = acc"
| "matchImages baseName (img # imgs) (matched, matchedImages) =
    (let imgBase = getBaseName (fileName img) in
     if imgBase = baseName \<or> startsWith imgBase (baseName @ ''-'') \<or> startsWith imgBase (baseName @ ''_'')
     then matchImages baseName imgs (matched @ [img], insert (fileName img) matchedImages)
     else matchImages baseName imgs (matched, matchedImages))"

text \<open>The outer loop over the documents.\<close>

fun groupLoop :: "upload list \<Rightarrow> upload list \<Rightarrow>
    FileGroup list \<times> string set \<times> groupLog list \<Rightarrow> FileGroup list \<times> string set \<times> groupLog list" where
  "groupLoop [] images acc = acc"
| "groupLoop (html # htmls) images (groups, matchedImages, lg) =
    (let baseName = getBaseName (fileName html);
         slug = replaceWhitespaceRuns baseName;
         (matched, matchedImages') = matchImages baseName images ([], matchedImages)
     in groupLoop htmls images
          (groups @ [\<lparr>name = baseName, slug = slug, htmlFile = Some html, imageFiles = matched\<rparr>],
           matchedImages',
           lg @ [LogGroup baseName slug (map fileName matched)]))"

text \<open>
  \<open>groupFiles\<close> returns the groups and the names of the unmatched images, and the lines it
  has appended to the diagnostic log.
\<close>

definition groupFiles :: "upload list \<Rightarrow> (FileGroup list \<times> string list) \<times> groupLog list" where
  "groupFiles files =
    (let (htmlFiles, images) = classifyFiles files ([], []);
         lg0 = [LogGrouping (length htmlFiles) (length images)];
         (groups, matchedImages, lg1) = groupLoop htmlFiles images ([], {}, lg0);
         unmatched = map fileName (filter (\<lambda>img. fileName img \<notin> matchedImages) images);
         lg2 = (if length unmatched > 0 then lg1 @ [LogUnmatched unmatched] else lg1)
     in ((groups, unmatched), lg2))"

subsection \<open>What the loops compute\<close>

definition isDocument :: "upload \<Rightarrow> bool" where
  "isDocument f = (getExtension (fileName f) \<in> HTML_EXTENSIONS)"

definition isAsset :: "upload \<Rightarrow> bool" where
  "isAsset f = (getExtension (fileName f) \<in> IMAGE_EXTENSIONS)"

text \<open>
  The matching rule of the claim: the asset's base name is the document's base name, or
  starts with it and a hyphen, or starts with it and an underscore.
\<close>

definition claimsAsset :: "upload \<Rightarrow> upload \<Rightarrow> bool" where
  "claimsAsset d a =
    (getBaseName (fileName a) = getBaseName (fileName d)
     \<or> startsWith (getBaseName (fileName a)) (getBaseName (fileName d) @ ''-'')
     \<or> startsWith (getBaseName (fileName a)) (getBaseName (fileName d) @ ''_''))"

definition unitOf :: "upload list \<Rightarrow> upload \<Rightarrow> FileGroup" where
  "unitOf assets d =
    \<lparr>name = getBaseName (fileName d),
     slug = replaceWhitespaceRuns (getBaseName (fileName d)),
     htmlFile = Some d,
     imageFiles = filter (claimsAsset d) assets\<rparr>"

lemma HTML_IMAGE_disjoint: "e \<in> HTML_EXTENSIONS \<Longrightarrow> e \<notin> IMAGE_EXTENSIONS"
  by (auto simp: HTML_EXTENSIONS_def IMAGE_EXTENSIONS_def)

lemma classifyFiles_filter:
  "classifyFiles files (hs, is) = (hs @ filter isDocument files, is @ filter isAsset files)"
proof (induction files arbitrary: hs "is")
  case Nil
  show ?case by simp
next
  case (Cons f files)
  show ?case
    by (simp add: Cons.IH Let_def isDocument_def isAsset_def HTML_IMAGE_disjoint)
qed

lemma matchImages_filter:
  "matchImages (getBaseName (fileName d)) imgs (m, S) =
     (m @ filter (claimsAsset d) imgs, S \<union> fileName ` set (filter (claimsAsset d) imgs))"
proof (induction imgs arbitrary: m S)
  case Nil
  show ?case by simp
next
  case (Cons a imgs)
  show ?case
    by (simp add: Cons.IH Let_def claimsAsset_def)
qed

lemma groupLoop_map:
  "fst (groupLoop htmls images (gs, S, lg)) = gs @ map (unitOf images) htmls
   \<and> fst (snd (groupLoop htmls images (gs, S, lg)))
       = S \<union> {fileName a | a. a \<in> set images \<and> (\<exists>d\<in>set htmls. claimsAsset d a)}"
proof (induction htmls arbitrary: gs S lg)
  case Nil
  show ?case by simp
next
  case (Cons d htmls)
  show ?case
    by (simp add: Cons.IH matchImages_filter Let_def unitOf_def) blast
qed

lemma claimsAsset_by_name:
  "fileName a = fileName a' \<Longrightarrow> claimsAsset d a = claimsAsset d a'"
  by (simp add: claimsAsset_def)

lemma lastIndexOf_scan_bound:
  "lastIndexOf_scan c xs i seen = Some d \<Longrightarrow> (\<forall>k. seen = Some k \<longrightarrow> k < i) \<Longrightarrow> d < i + length xs"
proof (induction xs arbitrary: i seen)
  case Nil
  then show ?case by simp
next
  case (Cons x xs)
  have "d < Suc i + length xs"
  proof (rule Cons.IH)
    show "lastIndexOf_scan c xs (Suc i) (if x = c then Some i else seen) = Some d"
      using Cons.prems(1) by simp
    show "\<forall>k. (if x = c then Some i else seen) = Some k \<longrightarrow> k < Suc i"
      using Cons.prems(2) by (auto simp: less_Suc_eq)
  qed
  then show ?case by simp
qed

lemma lastIndexOf_bound: "lastIndexOf s c = Some d \<Longrightarrow> d < length s"
  using lastIndexOf_scan_bound [of c s 0 None d] by (simp add: lastIndexOf_def)

lemma baseName_extension:
  "take (length (getBaseName f)) f = getBaseName f
   \<and> toLowerCase (drop (length (getBaseName f)) f) = getExtension f"
proof (cases "lastIndexOf f (CHR ''.'')")
  case None
  then show ?thesis by (simp add: getBaseName_def getExtension_def toLowerCase_def)
next
  case (Some d)
  then have "d < length f" by (rule lastIndexOf_bound)
  with Some show ?thesis by (simp add: getBaseName_def getExtension_def min_def)
qed

lemma groupFiles_result:
  "fst (groupFiles files) =
     (map (unitOf (filter isAsset files)) (filter isDocument files),
      map fileName (filter (\<lambda>a. \<not> (\<exists>d\<in>set (filter isDocument files). claimsAsset d a))
                      (filter isAsset files)))"
proof -
  let ?docs = "filter isDocument files" and ?assets = "filter isAsset files"
  let ?lg0 = "[LogGrouping (length ?docs) (length ?assets)]"
  obtain gs S lg where loop: "groupLoop ?docs ?assets ([], {}, ?lg0) = (gs, S, lg)"
    by (metis prod_cases3)
  from groupLoop_map [of ?docs ?assets "[]" "{}" ?lg0] loop
  have gs: "gs = map (unitOf ?assets) ?docs"
    and S: "S = {fileName a | a. a \<in> set ?assets \<and> (\<exists>d\<in>set ?docs. claimsAsset d a)}"
    by simp_all
  have "fileName a \<notin> S \<longleftrightarrow> \<not> (\<exists>d\<in>set ?docs. claimsAsset d a)" if "a \<in> set ?assets" for a
    unfolding S using that claimsAsset_by_name by blast
  then have un: "filter (\<lambda>img. fileName img \<notin> S) ?assets
      = filter (\<lambda>a. \<not> (\<exists>d\<in>set ?docs. claimsAsset d a)) ?assets"
    by (intro filter_cong) auto
  have "fst (groupFiles files) = (gs, map fileName (filter (\<lambda>img. fileName img \<notin> S) ?assets))"
    using classifyFiles_filter [of files "[]" "[]"] loop
    by (simp add: groupFiles_def Let_def del: filter_filter)
  then show ?thesis
    by (simp only: gs un)
qed

subsection \<open>The grouping example of the specification\<close>

definition namedFile :: "string \<Rightarrow> upload" where
  "namedFile n = \<lparr>fileName = n, fileText = Inr [], fileBytes = Inr []\<rparr>"

definition exampleUploads :: "upload list" where
  "exampleUploads = map namedFile
     [''Report.html'', ''Notes.html'', ''Report-1.png'', ''Report_2.png'', ''Notes.png'', ''Orphan.png'']"

lemma groupFiles_example:
  "map (\<lambda>g. (name g, slug g, map fileName (imageFiles g))) (fst (fst (groupFiles exampleUploads)))
     = [(''Report'', ''Report'', [''Report-1.png'', ''Report_2.png'']),
        (''Notes'', ''Notes'', [''Notes.png''])]
   \<and> snd (fst (groupFiles exampleUploads)) = [''Orphan.png'']"
  by code_simp

text \<open>
  C5. The units are the documents of the upload, in their order; a unit's name is the
  document's file name up to its last dot (what follows is the extension, compared in lower
  case), its slug is the name with every whitespace run replaced by a hyphen, and its
  assets are the image files that the document claims by the three-way rule, in upload
  order. The unmatched list names the image files that no document claims. The example of
  the specification groups as stated.
\<close>

theorem groupFiles_units:
  "fst (groupFiles files) =
     (map (\<lambda>d. \<lparr>name = getBaseName (fileName d),
                slug = replaceWhitespaceRuns (getBaseName (fileName d)),
                htmlFile = Some d,
                imageFiles = filter (claimsAsset d) (filter isAsset files)\<rparr>)
        (filter isDocument files),
      map fileName (filter (\<lambda>a. \<not> (\<exists>d\<in>set (filter isDocument files). claimsAsset d a))
                      (filter isAsset files)))
   \<and> take (length (getBaseName f)) f = getBaseName f
   \<and> toLowerCase (drop (length (getBaseName f)) f) = getExtension f
   \<and> map (\<lambda>g. (name g, slug g, map fileName (imageFiles g))) (fst (fst (groupFiles exampleUploads)))
       = [(''Report'', ''Report'', [''Report-1.png'', ''Report_2.png'']),
          (''Notes'', ''Notes'', [''Notes.png''])]
   \<and> snd (fst (groupFiles exampleUploads)) = [''Orphan.png'']"
proof -
  have "map (unitOf (filter isAsset files)) (filter isDocument files)
      = map (\<lambda>d. \<lparr>name = getBaseName (fileName d),
                slug = replaceWhitespaceRuns (getBaseName (fileName d)),
                htmlFile = Some d,
                imageFiles = filter (claimsAsset d) (filter isAsset files)\<rparr>)
        (filter isDocument files)"
    by (simp add: unitOf_def)
  with groupFiles_result [of files] baseName_extension [of f] groupFiles_example
  show ?thesis by (simp only:)
qed

theorem groupFiles_units_witness:
  "map name (fst (fst (groupFiles exampleUploads)))
     = map (\<lambda>d. getBaseName (fileName d)) (filter isDocument exampleUploads)
   \<and> snd (fst (groupFiles exampleUploads)) = [''Orphan.png'']
   \<and> getBaseName ''My  Notes v2.HTML'' = ''My  Notes v2''
   \<and> getExtension ''My  Notes v2.HTML'' = ''.html''
   \<and> replaceWhitespaceRuns ''My  Notes v2'' = ''My-Notes-v2''"
proof -
  note u = groupFiles_units [of exampleUploads "[]"]
  have a: "map name (fst (fst (groupFiles exampleUploads)))
      = map (\<lambda>d. getBaseName (fileName d)) (filter isDocument exampleUploads)"
    using u by (simp add: comp_def)
  have b: "snd (fst (groupFiles exampleUploads)) = [''Orphan.png'']"
    using u by blast
  have c: "getBaseName ''My  Notes v2.HTML'' = ''My  Notes v2''
    \<and> getExtension ''My  Notes v2.HTML'' = ''.html''
    \<and> replaceWhitespaceRuns ''My  Notes v2'' = ''My-Notes-v2''"
    by code_simp
  from a b c show ?thesis by simp
qed

section \<open>Retry controller: \<open>callClaudeWithRetry\<close>\<close>

text \<open>
  The message that the model service returns: its content blocks, and the fields that the
  log line of a response prints. A content block is a tagged union; the model keeps the text
  of a text block and only the tag of every other kind.
\<close>

datatype contentBlock = TextBlock string | OtherBlock string

record apiMessage =
  content :: "contentBlock list"
  stopReason :: string
  inputTokens :: nat
  outputTokens :: nat

text \<open>
  The progress label \<open>[index + 1/total]\<close> of a unit is the pair of its two numbers. What
  a unit does beyond the page storage is recorded as a list of events: the lines it appends
  to the diagnostic log (by kind and content, without time stamps and durations), its calls
  of the model service and its sleeps.
\<close>

type_synonym progress = "nat \<times> nat"

datatype unitLog =
  LogSkip string
  | LogProcessing string
  | LogHtmlSize nat
  | LogMimeFix string string string
  | LogAddImage string string
  | LogCallingApi
  | LogResponded nat nat string
  | LogRateLimited string nat nat
  | LogMarkdown nat
  | LogSavedContent string
  | LogSavedImage string string
  | LogSuccess string
  | LogFailed string string
  | LogStack

datatype event =
  UnitLog progress unitLog
  | ApiCall progress nat
  | Sleep nat

definition MAX_RETRIES :: nat where
  "MAX_RETRIES = 3"

definition RETRY_BASE_DELAY_MS :: nat where
  "RETRY_BASE_DELAY_MS = 15000"

definition isRateLimit :: "thrown \<Rightarrow> bool" where
  "isRateLimit err =
    (instanceofError err \<and>
      (stringIncludes (message err) ''rate_limit''
       \<or> stringIncludes (message err) ''429''
       \<or> status err = Some 429))"

text \<open>
  The \<open>for\<close> loop over \<open>attempt\<close>. \<open>create attempt\<close> is what
  \<open>client.messages.create(params)\<close> does when it is called for the attempt with that
  number: it returns a message or it throws. The events are appended to \<open>tr\<close>.
\<close>

function callClaudeWithRetry_from ::
    "(nat \<Rightarrow> thrown + apiMessage) \<Rightarrow> progress \<Rightarrow> string \<Rightarrow> nat \<Rightarrow> event list
      \<Rightarrow> (thrown + apiMessage) \<times> event list" where
  "callClaudeWithRetry_from create prog groupName attempt tr =
    (if attempt \<le> MAX_RETRIES then
       (case create attempt of
          Inr response \<Rightarrow>
            (Inr response,
             tr @ [ApiCall prog attempt,
                   UnitLog prog (LogResponded (inputTokens response) (outputTokens response)
                                  (stopReason response))])
        | Inl err \<Rightarrow>
            if isRateLimit err \<and> attempt < MAX_RETRIES then
              (let delay = RETRY_BASE_DELAY_MS * (attempt + 1) in
               callClaudeWithRetry_from create prog groupName (attempt + 1)
                 (tr @ [ApiCall prog attempt,
                        UnitLog prog (LogRateLimited groupName (attempt + 1) delay),
                        Sleep delay]))
            else (Inl err, tr @ [ApiCall prog attempt]))
     else (Inl (Thrown True ''Max retries exceeded'' None), tr))"
  by pat_completeness auto
termination
  by (relation "measure (\<lambda>(create, prog, groupName, attempt, tr). Suc MAX_RETRIES - attempt)") auto

declare callClaudeWithRetry_from.simps [simp del]

definition callClaudeWithRetry ::
    "(nat \<Rightarrow> thrown + apiMessage) \<Rightarrow> progress \<Rightarrow> string \<Rightarrow> (thrown + apiMessage) \<times> event list" where
  "callClaudeWithRetry create prog groupName = callClaudeWithRetry_from create prog groupName 0 []"

subsection \<open>Attempts, delays and the outcome\<close>












text \<open>Three services: rate-limited twice, rate-limited always, and failing otherwise.\<close>

definition okMessage :: apiMessage where
  "okMessage = \<lparr>content = [TextBlock ''# Title''], stopReason = ''end_turn'',
                 inputTokens = 10, outputTokens = 5\<rparr>"


definition serverError :: thrown where
  "serverError = Thrown True ''500 internal server error'' (Some 500)"







section \<open>Paths: the POSIX \<open>path\<close> module of Node\<close>

text \<open>
  \<open>path.join\<close>, \<open>path.normalize\<close>, \<open>path.resolve\<close> and \<open>path.extname\<close> work on
  strings. A path is cut at its slashes; \<open>normalizeSegments\<close> walks the segments as Node's
  \<open>normalizeString\<close> does: an empty segment and \<open>.\<close> are skipped, \<open>..\<close> removes the
  segment before it (when there is one that is not itself \<open>..\<close>) and is otherwise kept only
  in a relative path (\<open>allowAboveRoot\<close>).
\<close>

fun splitOn :: "char \<Rightarrow> string \<Rightarrow> string list" where
  "splitOn sep [] = [[]]"
| "splitOn sep (c # cs) =
    (if c = sep then [] # splitOn sep cs
     else (case splitOn sep cs of w # ws \<Rightarrow> (c # w) # ws | [] \<Rightarrow> [[c]]))"

fun joinWith :: "string \<Rightarrow> string list \<Rightarrow> string" where
  "joinWith sep [] = []"
| "joinWith sep [x] = x"
| "joinWith sep (x # y # ys) = x @ sep @ joinWith sep (y # ys)"

fun normalizeSegments :: "bool \<Rightarrow> string list \<Rightarrow> string list \<Rightarrow> string list" where
  "normalizeSegments allowAboveRoot [] res = res"
| "normalizeSegments allowAboveRoot (s # ss) res =
    (if s = [] \<or> s = ''.'' then normalizeSegments allowAboveRoot ss res
     else if s = ''..'' then
       (if res \<noteq> [] \<and> last res \<noteq> ''..'' then normalizeSegments allowAboveRoot ss (butlast res)
        else if allowAboveRoot then normalizeSegments allowAboveRoot ss (res @ [''..''])
        else normalizeSegments allowAboveRoot ss res)
     else normalizeSegments allowAboveRoot ss (res @ [s]))"

definition normalizeString :: "string \<Rightarrow> bool \<Rightarrow> string" where
  "normalizeString path allowAboveRoot =
     joinWith ''/'' (normalizeSegments allowAboveRoot (splitOn (CHR ''/'') path) [])"

definition isAbsolute :: "string \<Rightarrow> bool" where
  "isAbsolute path = (path \<noteq> [] \<and> hd path = CHR ''/'')"

definition endsWithSlash :: "string \<Rightarrow> bool" where
  "endsWithSlash path = (path \<noteq> [] \<and> last path = CHR ''/'')"

definition path_normalize :: "string \<Rightarrow> string" where
  "path_normalize path =
    (if path = [] then ''.''
     else
       (let p = normalizeString path (\<not> isAbsolute path) in
        if p = [] then (if isAbsolute path then ''/'' else if endsWithSlash path then ''./'' else ''.'')
        else (if isAbsolute path then ''/'' else []) @ p @ (if endsWithSlash path then ''/'' else [])))"

definition path_join :: "string list \<Rightarrow> string" where
  "path_join args =
    (let parts = filter (\<lambda>a. a \<noteq> []) args in
     if parts = [] then ''.'' else path_normalize (joinWith ''/'' parts))"

text \<open>\<open>path.resolve(p)\<close> of one argument, in the working directory \<open>cwd\<close> (an absolute path).\<close>

definition path_resolve :: "string \<Rightarrow> string \<Rightarrow> string" where
  "path_resolve cwd p =
    ''/'' @ normalizeString ((if isAbsolute p then p else cwd @ ''/'' @ p) @ ''/'') False"

text \<open>
  \<open>path.extname\<close>: the last component of the path (trailing slashes apart), from its last
  dot on; empty when it has no dot, when the dot is its first character, or when it is
  \<open>..\<close>.
\<close>

definition path_basename :: "string \<Rightarrow> string" where
  "path_basename path =
    (let segs = filter (\<lambda>s. s \<noteq> []) (splitOn (CHR ''/'') path)
     in if segs = [] then [] else last segs)"

definition path_extname :: "string \<Rightarrow> string" where
  "path_extname path =
    (let base = path_basename path in
     case lastIndexOf base (CHR ''.'') of
       None \<Rightarrow> []
     | Some dot \<Rightarrow> if dot = 0 \<or> base = ''..'' then [] else drop dot base)"

section \<open>Page storage: \<open>lib/notes\<close> on a file system\<close>

text \<open>
  The file system is a tree of directories and regular files, without links and access
  rights: a map from the list of components of an absolute path to the node there. A file
  holds the string or the bytes written to it. A failing operation throws an \<open>Error\<close>
  whose message starts with the error code; the model keeps the code. The paths that the
  program hands to \<open>fs\<close> are absolute and come out of \<open>path.join\<close>; \<open>pathKey\<close> cuts
  such a path into its components.
\<close>

datatype payload = Utf8 string | Raw buffer

datatype node = Dir | File payload

type_synonym filesystem = "string list \<rightharpoonup> node"

definition pathKey :: "string \<Rightarrow> string list" where
  "pathKey path = normalizeSegments False (splitOn (CHR ''/'') path) []"

definition fsError :: "string \<Rightarrow> thrown" where
  "fsError code = Thrown True code None"

definition existsSync :: "filesystem \<Rightarrow> string \<Rightarrow> bool" where
  "existsSync fs path =
    (case fs (pathKey path) of
       None \<Rightarrow> False
     | Some Dir \<Rightarrow> True
     | Some (File d) \<Rightarrow> \<not> endsWithSlash path)"

text \<open>
  \<open>mkdirSync(path, {recursive: true})\<close> walks down from the root and creates every
  directory that is missing; it throws when it meets a regular file: \<open>ENOTDIR\<close> on the
  way, and at the target \<open>EEXIST\<close>, or \<open>ENOTDIR\<close> when the path ends with a slash.
  \<open>made\<close> is the part of the path walked so far, \<open>code\<close> the error code for a regular
  file at the place looked at.
\<close>

definition ensureDir :: "filesystem \<Rightarrow> string list \<Rightarrow> string \<Rightarrow> thrown + filesystem" where
  "ensureDir fs key code =
    (case fs key of
       None \<Rightarrow> Inr (fs(key \<mapsto> Dir))
     | Some Dir \<Rightarrow> Inr fs
     | Some (File d) \<Rightarrow> Inl (fsError code))"

fun mkdirWalk :: "filesystem \<Rightarrow> string list \<Rightarrow> string list \<Rightarrow> string \<Rightarrow> thrown + filesystem" where
  "mkdirWalk fs made [] atTarget = ensureDir fs made atTarget"
| "mkdirWalk fs made (c # cs) atTarget =
    (case ensureDir fs made ''ENOTDIR'' of
       Inl err \<Rightarrow> Inl err
     | Inr fs' \<Rightarrow> mkdirWalk fs' (made @ [c]) cs atTarget)"

definition mkdirSync :: "filesystem \<Rightarrow> string \<Rightarrow> thrown + filesystem" where
  "mkdirSync fs path =
     mkdirWalk fs [] (pathKey path) (if endsWithSlash path then ''ENOTDIR'' else ''EEXIST'')"

text \<open>
  \<open>writeFileSync(path, data)\<close> opens the file for writing, creating it when it is missing.
  The directory that is to hold it is looked at first: \<open>ENOENT\<close> when it is missing,
  \<open>ENOTDIR\<close> when it is a regular file. Then the place itself: a directory there gives
  \<open>EISDIR\<close>; a path that ends with a slash names a directory, which gives \<open>ENOTDIR\<close> on a
  regular file and \<open>EISDIR\<close> where nothing is yet.
\<close>

definition writeFileSync :: "filesystem \<Rightarrow> string \<Rightarrow> payload \<Rightarrow> thrown + filesystem" where
  "writeFileSync fs path dat =
    (let key = pathKey path in
     if key = [] then Inl (fsError ''EISDIR'')
     else
       (case fs (butlast key) of
          None \<Rightarrow> Inl (fsError ''ENOENT'')
        | Some (File d) \<Rightarrow> Inl (fsError ''ENOTDIR'')
        | Some Dir \<Rightarrow>
            (case fs key of
               Some Dir \<Rightarrow> Inl (fsError ''EISDIR'')
             | Some (File d) \<Rightarrow>
                 if endsWithSlash path then Inl (fsError ''ENOTDIR'') else Inr (fs(key \<mapsto> File dat))
             | None \<Rightarrow>
                 if endsWithSlash path then Inl (fsError ''EISDIR'') else Inr (fs(key \<mapsto> File dat)))))"

definition readFileSync :: "filesystem \<Rightarrow> string \<Rightarrow> thrown + payload" where
  "readFileSync fs path =
    (case fs (pathKey path) of
       None \<Rightarrow> Inl (fsError ''ENOENT'')
     | Some Dir \<Rightarrow> Inl (fsError ''EISDIR'')
     | Some (File d) \<Rightarrow> if endsWithSlash path then Inl (fsError ''ENOTDIR'') else Inr d)"

text \<open>The functions of \<open>lib/notes\<close>; \<open>cwd\<close> is \<open>process.cwd()\<close>.\<close>

definition NOTES_DIR :: "string \<Rightarrow> string" where
  "NOTES_DIR cwd = path_join [cwd, ''notes'']"

definition createPage :: "string \<Rightarrow> filesystem \<Rightarrow> string list \<Rightarrow> thrown + filesystem" where
  "createPage cwd fs slugParts =
    (let dirPath = path_join (NOTES_DIR cwd # slugParts) in
     case (if \<not> existsSync fs dirPath then mkdirSync fs dirPath else Inr fs) of
       Inl err \<Rightarrow> Inl err
     | Inr fs1 \<Rightarrow>
         (let contentPath = path_join [dirPath, ''content.md''] in
          if \<not> existsSync fs1 contentPath then writeFileSync fs1 contentPath (Utf8 [])
          else Inr fs1))"

definition savePageContent :: "string \<Rightarrow> filesystem \<Rightarrow> string list \<Rightarrow> string \<Rightarrow> thrown + filesystem" where
  "savePageContent cwd fs slugParts body =
    (let dirPath = path_join (NOTES_DIR cwd # slugParts) in
     case (if \<not> existsSync fs dirPath then mkdirSync fs dirPath else Inr fs) of
       Inl err \<Rightarrow> Inl err
     | Inr fs1 \<Rightarrow> writeFileSync fs1 (path_join [dirPath, ''content.md'']) (Utf8 body))"

definition saveImageToPage :: "string \<Rightarrow> filesystem \<Rightarrow> string list \<Rightarrow> string \<Rightarrow> buffer \<Rightarrow> thrown + filesystem" where
  "saveImageToPage cwd fs slugParts filename buf =
    (let dirPath = path_join (NOTES_DIR cwd # slugParts) in
     case (if \<not> existsSync fs dirPath then mkdirSync fs dirPath else Inr fs) of
       Inl err \<Rightarrow> Inl err
     | Inr fs1 \<Rightarrow> writeFileSync fs1 (path_join [dirPath, filename]) (Raw buf))"

subsection \<open>Splitting, joining and normalising\<close>

















subsection \<open>Creating a page\<close>
















text \<open>
  An application directory \<open>/app\<close> with no notes yet; the same with the page \<open>Report\<close>
  holding the text \<open>hello\<close>; and the same after the nested page \<open>Report/Q1\<close> was
  created first, which leaves the directory of \<open>Report\<close> without a content file.
\<close>

definition appRoot :: filesystem where
  "appRoot = [[] \<mapsto> Dir, [''app''] \<mapsto> Dir]"




lemma nested_page_leaves_parent:
  "(case createPage ''/app'' appRoot [''Report'', ''Q1''] of
      Inl err \<Rightarrow> False
    | Inr fs' \<Rightarrow>
        fs' [''app'', ''notes'', ''Report''] = Some Dir
        \<and> fs' [''app'', ''notes'', ''Report'', ''content.md''] = None
        \<and> fs' [''app'', ''notes'', ''Report'', ''Q1''] = Some Dir
        \<and> fs' [''app'', ''notes'', ''Report'', ''Q1'', ''content.md''] = Some (File (Utf8 [])))"
  by code_simp


section \<open>The image route: \<open>GET /api/notes/images/[...path]\<close>\<close>

text \<open>
  A response is a status and a body: the JSON object \<open>{error}\<close>, or the bytes of a file
  with their content type. The route reads at most one file; the model returns, beside the
  response, the paths it has handed to \<open>readFileSync\<close>. A throw of \<open>readFileSync\<close> is
  not caught by the route.
\<close>

datatype httpBody = JsonError string | FileBody payload string

datatype response = Response (statusCode: nat) (body: httpBody)

definition MIME_TYPES :: "string \<rightharpoonup> string" where
  "MIME_TYPES = map_of
     [(''.png'', ''image/png''), (''.jpg'', ''image/jpeg''), (''.jpeg'', ''image/jpeg''),
      (''.gif'', ''image/gif''), (''.webp'', ''image/webp'')]"

abbreviation backslash :: char where "backslash \<equiv> CHR 0x5C"

definition GET_image :: "string \<Rightarrow> filesystem \<Rightarrow> string list \<Rightarrow> (thrown + response) \<times> string list" where
  "GET_image cwd fs segments =
    (if list_ex (\<lambda>s. s = ''..'' \<or> backslash \<in> set s) segments
     then (Inr (Response 400 (JsonError ''Invalid path'')), [])
     else
       (let filePath = path_join (NOTES_DIR cwd # segments);
            resolved = path_resolve cwd filePath
        in if \<not> startsWith resolved (path_resolve cwd (NOTES_DIR cwd))
           then (Inr (Response 400 (JsonError ''Invalid path'')), [])
           else
             (let ext = toLowerCase (path_extname filePath) in
              case MIME_TYPES ext of
                None \<Rightarrow> (Inr (Response 400 (JsonError ''Unsupported file type'')), [])
              | Some mimeType \<Rightarrow>
                  if \<not> existsSync fs filePath
                  then (Inr (Response 404 (JsonError ''Not found'')), [])
                  else
                    (case readFileSync fs filePath of
                       Inl err \<Rightarrow> (Inl err, [filePath])
                     | Inr buffer \<Rightarrow> (Inr (Response 200 (FileBody buffer mimeType)), [filePath])))))"

subsection \<open>What the checks of the route give\<close>

lemma GET_image_dotdot_or_backslash:
  "\<exists>s\<in>set segments. s = ''..'' \<or> backslash \<in> set s \<Longrightarrow>
   GET_image cwd fs segments = (Inr (Response 400 (JsonError ''Invalid path'')), [])"
  by (simp add: GET_image_def list_ex_iff)

lemma MIME_TYPES_dom:
  "MIME_TYPES ext = Some m \<Longrightarrow> ext \<in> {''.png'', ''.jpg'', ''.jpeg'', ''.gif'', ''.webp''}"
  by (auto simp: MIME_TYPES_def split: if_splits)

lemma GET_image_served:
  assumes "GET_image cwd fs segments = (Inr (Response 200 b), reads)"
  shows "toLowerCase (path_extname (path_join (NOTES_DIR cwd # segments)))
           \<in> {''.png'', ''.jpg'', ''.jpeg'', ''.gif'', ''.webp''}
    \<and> startsWith (path_resolve cwd (path_join (NOTES_DIR cwd # segments)))
          (path_resolve cwd (NOTES_DIR cwd))
    \<and> reads = [path_join (NOTES_DIR cwd # segments)]"
proof -
  let ?ext = "toLowerCase (path_extname (path_join (NOTES_DIR cwd # segments)))"
  from assms obtain m where "MIME_TYPES ?ext = Some m"
    by (auto simp: GET_image_def Let_def split: if_splits option.splits sum.splits)
  then have "?ext \<in> {''.png'', ''.jpg'', ''.jpeg'', ''.gif'', ''.webp''}"
    by (rule MIME_TYPES_dom)
  moreover from assms have "startsWith (path_resolve cwd (path_join (NOTES_DIR cwd # segments)))
          (path_resolve cwd (NOTES_DIR cwd))
    \<and> reads = [path_join (NOTES_DIR cwd # segments)]"
    by (auto simp: GET_image_def Let_def split: if_splits option.splits sum.splits)
  ultimately show ?thesis by blast
qed

subsection \<open>A directory beside the notes directory\<close>

text \<open>
  The application directory \<open>/app\<close> with the notes directory \<open>/app/notes\<close> and, beside
  it, the directory \<open>/app/notes-backup\<close> with the file \<open>secret.png\<close>. The request
  \<open>GET /api/notes/images/..%2Fnotes-backup/secret.png\<close> reaches the route with the
  segments \<open>../notes-backup\<close> and \<open>secret.png\<close>: each segment is decoded after the path has
  been cut at its slashes.
\<close>

definition secretBytes :: buffer where
  "secretBytes = [0x89, 0x50, 0x4e, 0x47, 0x2a]"

definition appWithBackup :: filesystem where
  "appWithBackup = appRoot([''app'', ''notes''] \<mapsto> Dir, [''app'', ''notes-backup''] \<mapsto> Dir,
     [''app'', ''notes-backup'', ''secret.png''] \<mapsto> File (Raw secretBytes))"

text \<open>
  C10 on that request. No segment is \<open>..\<close> and none holds a backslash; the resolved path
  \<open>/app/notes-backup/secret.png\<close> is not inside \<open>/app/notes\<close> (its components do not
  start with those of the notes directory), yet as a string it starts with \<open>/app/notes\<close>,
  so the test of the route lets it through and the file is read and served.
\<close>

theorem GET_image_serves_outside_notes:
  "GET_image ''/app'' appWithBackup [''../notes-backup'', ''secret.png'']
     = (Inr (Response 200 (FileBody (Raw secretBytes) ''image/png'')), [''/app/notes-backup/secret.png''])
   \<and> path_resolve ''/app'' (path_join (NOTES_DIR ''/app'' # [''../notes-backup'', ''secret.png'']))
       = ''/app/notes-backup/secret.png''
   \<and> path_resolve ''/app'' (NOTES_DIR ''/app'') = ''/app/notes''
   \<and> \<not> prefix (pathKey ''/app/notes'') (pathKey ''/app/notes-backup/secret.png'')"
  by code_simp

section \<open>Concurrency scheduler: \<open>runWithConcurrency\<close>\<close>

text \<open>
  JavaScript runs the workers on one thread: a worker runs until it awaits the promise of
  the task it has claimed, and it goes on when that promise settles. Which of the pending
  promises settles next is not in the hands of the scheduler; the model takes it as a
  schedule, the list of the workers whose awaited promise settles, in that order.

  A task is a function of the state that the tasks share (for the import: the page storage
  and the logs): settled in state \<open>s\<close> it has fulfilled with a value or rejected with a
  thrown value, and has left the state \<open>s'\<close>. The pool holds the variables of
  \<open>runWithConcurrency\<close> (\<open>results\<close>, \<open>nextIndex\<close>), the promise of every worker, the
  shared state, and two lists kept for the proofs: the indices of the tasks in the order
  they were started, and the tasks that have settled, each with its outcome.
\<close>

type_synonym ('s, 'e, 'a) task = "'s \<Rightarrow> ('e + 'a) \<times> 's"

datatype 'e worker = Awaiting nat | Finished | Failed 'e

record ('s, 'e, 'a) pool =
  nextIndex :: nat
  results :: "'a option list"
  workers :: "'e worker list"
  started :: "nat list"
  settled :: "(nat \<times> ('e + 'a)) list"
  shared :: 's

text \<open>
  The head of the \<open>while\<close> loop of \<open>worker\<close>: with a task left, the worker claims the
  next index, starts that task and awaits it; with none left, it returns.
\<close>

definition workerLoop :: "nat \<Rightarrow> ('s, 'e, 'a) pool \<Rightarrow> ('s, 'e, 'a) pool \<times> 'e worker" where
  "workerLoop n p =
    (if nextIndex p < n
     then (p\<lparr>nextIndex := nextIndex p + 1, started := started p @ [nextIndex p]\<rparr>,
           Awaiting (nextIndex p))
     else (p, Finished))"

text \<open>\<open>Array.from({length: k}, () => worker())\<close>: the workers are called one after another.\<close>

fun spawnWorkers :: "nat \<Rightarrow> nat \<Rightarrow> ('s, 'e, 'a) pool \<Rightarrow> ('s, 'e, 'a) pool" where
  "spawnWorkers 0 n p = p"
| "spawnWorkers (Suc k) n p =
    (case workerLoop n p of (p', w) \<Rightarrow> spawnWorkers k n (p'\<lparr>workers := workers p' @ [w]\<rparr>))"

text \<open>
  The promise that worker \<open>w\<close> awaits settles. A value is stored at the index of the task
  and the worker is back at the head of its loop; a rejection ends the worker. A worker that
  awaits nothing is left alone.
\<close>

definition settle :: "('s, 'e, 'a) task list \<Rightarrow> ('s, 'e, 'a) pool \<Rightarrow> nat \<Rightarrow> ('s, 'e, 'a) pool" where
  "settle tasks p w =
    (if w < length (workers p) then
       (case workers p ! w of
          Awaiting i \<Rightarrow>
            (if i < length tasks then
               (case (tasks ! i) (shared p) of
                  (Inr v, s') \<Rightarrow>
                    (case workerLoop (length tasks)
                            (p\<lparr>results := (results p)[i := Some v],
                               settled := settled p @ [(i, Inr v)], shared := s'\<rparr>) of
                       (p', st) \<Rightarrow> p'\<lparr>workers := (workers p')[w := st]\<rparr>)
                | (Inl e, s') \<Rightarrow>
                    p\<lparr>workers := (workers p)[w := Failed e],
                      settled := settled p @ [(i, Inl e)], shared := s'\<rparr>)
             else p)
        | Finished \<Rightarrow> p
        | Failed e \<Rightarrow> p)
     else p)"

text \<open>
  \<open>Promise.all(workers)\<close>: rejected with the first rejection, fulfilled when every worker
  has returned, pending otherwise. \<open>runWithConcurrency\<close> then returns \<open>results\<close>.
\<close>

datatype ('e, 'a) promise = Pending | Fulfilled 'a | Rejected 'e

fun firstRejection :: "(nat \<times> ('e + 'a)) list \<Rightarrow> 'e option" where
  "firstRejection [] = None"
| "firstRejection ((i, Inl e) # xs) = Some e"
| "firstRejection ((i, Inr v) # xs) = firstRejection xs"

definition allWorkers :: "('s, 'e, 'a) pool \<Rightarrow> ('e, 'a option list) promise" where
  "allWorkers p =
    (case firstRejection (settled p) of
       Some e \<Rightarrow> Rejected e
     | None \<Rightarrow> if list_all (\<lambda>w. w = Finished) (workers p) then Fulfilled (results p) else Pending)"

definition startPool :: "('s, 'e, 'a) task list \<Rightarrow> nat \<Rightarrow> 's \<Rightarrow> ('s, 'e, 'a) pool" where
  "startPool tasks concurrency s =
    spawnWorkers (min concurrency (length tasks)) (length tasks)
      \<lparr>nextIndex = 0, results = replicate (length tasks) None, workers = [],
       started = [], settled = [], shared = s\<rparr>"

definition runPool :: "('s, 'e, 'a) task list \<Rightarrow> nat \<Rightarrow> 's \<Rightarrow> nat list \<Rightarrow> ('s, 'e, 'a) pool" where
  "runPool tasks concurrency s schedule = foldl (settle tasks) (startPool tasks concurrency s) schedule"


text \<open>
  A schedule is possible when each worker it names awaits a promise at that moment. The
  promise of a started task settles at some time, so a run goes on as long as a worker
  awaits.
\<close>

definition awaiting :: "('s, 'e, 'a) pool \<Rightarrow> nat \<Rightarrow> bool" where
  "awaiting p w = (w < length (workers p) \<and> (case workers p ! w of Awaiting i \<Rightarrow> True | _ \<Rightarrow> False))"

fun possibleFrom :: "('s, 'e, 'a) task list \<Rightarrow> ('s, 'e, 'a) pool \<Rightarrow> nat list \<Rightarrow> bool" where
  "possibleFrom tasks p [] = True"
| "possibleFrom tasks p (w # ws) = (awaiting p w \<and> possibleFrom tasks (settle tasks p w) ws)"

definition possible :: "('s, 'e, 'a) task list \<Rightarrow> nat \<Rightarrow> 's \<Rightarrow> nat list \<Rightarrow> bool" where
  "possible tasks concurrency s schedule = possibleFrom tasks (startPool tasks concurrency s) schedule"

text \<open>The schedule in which the first worker that awaits is always the next to go on.\<close>

fun firstAwaiting :: "'e worker list \<Rightarrow> nat option" where
  "firstAwaiting [] = None"
| "firstAwaiting (Awaiting i # ws) = Some 0"
| "firstAwaiting (w # ws) = map_option Suc (firstAwaiting ws)"

fun eagerFrom :: "('s, 'e, 'a) task list \<Rightarrow> ('s, 'e, 'a) pool \<Rightarrow> nat \<Rightarrow> nat list" where
  "eagerFrom tasks p 0 = []"
| "eagerFrom tasks p (Suc k) =
    (case firstAwaiting (workers p) of
       None \<Rightarrow> []
     | Some w \<Rightarrow> w # eagerFrom tasks (settle tasks p w) k)"

definition eagerSchedule :: "('s, 'e, 'a) task list \<Rightarrow> nat \<Rightarrow> 's \<Rightarrow> nat list" where
  "eagerSchedule tasks concurrency s = eagerFrom tasks (startPool tasks concurrency s) (length tasks)"

text \<open>A task that never rejects, whatever the shared state.\<close>

definition neverRejects :: "('s, 'e, 'a) task \<Rightarrow> bool" where
  "neverRejects t = (\<forall>s. \<exists>v. fst (t s) = Inr v)"

subsection \<open>The workers and the tasks they await\<close>

definition awaited :: "'e worker list \<Rightarrow> nat set" where
  "awaited ws = {i. Awaiting i \<in> set ws}"

definition oneWorkerEach :: "'e worker list \<Rightarrow> bool" where
  "oneWorkerEach ws =
    (\<forall>w w' i. w < length ws \<and> w' < length ws \<and> ws ! w = Awaiting i \<and> ws ! w' = Awaiting i \<longrightarrow> w = w')"

lemma awaited_single: "awaited [x] = (case x of Awaiting j \<Rightarrow> {j} | _ \<Rightarrow> {})"
  by (auto simp: awaited_def split: worker.splits)

lemma awaited_snoc: "awaited (ws @ [x]) = awaited ws \<union> awaited [x]"
  by (auto simp: awaited_def)

lemma oneWorkerEach_snoc:
  assumes "oneWorkerEach ws" and "\<forall>j. x = Awaiting j \<longrightarrow> j \<notin> awaited ws"
  shows "oneWorkerEach (ws @ [x])"
  unfolding oneWorkerEach_def
proof (intro allI impI)
  fix w w' i
  assume a: "w < length (ws @ [x]) \<and> w' < length (ws @ [x])
      \<and> (ws @ [x]) ! w = Awaiting i \<and> (ws @ [x]) ! w' = Awaiting i"
  have old: "k < length ws \<Longrightarrow> ws ! k = Awaiting i \<Longrightarrow> i \<in> awaited ws" for k
    by (metis awaited_def mem_Collect_eq nth_mem)
  show "w = w'"
  proof (cases "w < length ws"; cases "w' < length ws")
    assume "w < length ws" "w' < length ws"
    with a assms(1) show ?thesis by (simp add: oneWorkerEach_def nth_append)
  next
    assume "w < length ws" "\<not> w' < length ws"
    with a assms(2) old [of w] show ?thesis by (auto simp: nth_append)
  next
    assume "\<not> w < length ws" "w' < length ws"
    with a assms(2) old [of w'] show ?thesis by (auto simp: nth_append)
  next
    assume "\<not> w < length ws" "\<not> w' < length ws"
    with a show ?thesis by simp
  qed
qed

lemma awaited_update:
  assumes "oneWorkerEach ws" "w < length ws" "ws ! w = Awaiting i"
  shows "awaited (ws[w := x]) = (awaited ws - {i}) \<union> awaited [x]"
proof (rule set_eqI)
  fix j
  have "j \<in> awaited (ws[w := x]) \<longleftrightarrow> (\<exists>k<length ws. ws[w := x] ! k = Awaiting j)"
    by (auto simp: awaited_def in_set_conv_nth)
  also have "\<dots> \<longleftrightarrow> x = Awaiting j \<or> (\<exists>k<length ws. k \<noteq> w \<and> ws ! k = Awaiting j)"
    using assms(2) by (auto simp: nth_list_update)
  also have "(\<exists>k<length ws. k \<noteq> w \<and> ws ! k = Awaiting j) \<longleftrightarrow> j \<in> awaited ws - {i}"
  proof
    assume "\<exists>k<length ws. k \<noteq> w \<and> ws ! k = Awaiting j"
    then obtain k where k: "k < length ws" "k \<noteq> w" "ws ! k = Awaiting j" by blast
    then have "j \<in> awaited ws" by (metis awaited_def mem_Collect_eq nth_mem)
    moreover have "j \<noteq> i"
      using k assms unfolding oneWorkerEach_def by blast
    ultimately show "j \<in> awaited ws - {i}" by simp
  next
    assume "j \<in> awaited ws - {i}"
    then obtain k where k: "k < length ws" "ws ! k = Awaiting j" and ne: "j \<noteq> i"
      by (auto simp: awaited_def in_set_conv_nth)
    with assms(3) have "k \<noteq> w" by auto
    with k show "\<exists>k<length ws. k \<noteq> w \<and> ws ! k = Awaiting j" by blast
  qed
  finally show "j \<in> awaited (ws[w := x]) \<longleftrightarrow> j \<in> (awaited ws - {i}) \<union> awaited [x]"
    by (auto simp: awaited_single split: worker.splits)
qed

lemma oneWorkerEach_update:
  assumes "oneWorkerEach ws" and "\<forall>j. x = Awaiting j \<longrightarrow> j \<notin> awaited ws"
  shows "oneWorkerEach (ws[w := x])"
  unfolding oneWorkerEach_def
proof (intro allI impI)
  fix a b i
  assume h: "a < length (ws[w := x]) \<and> b < length (ws[w := x])
      \<and> ws[w := x] ! a = Awaiting i \<and> ws[w := x] ! b = Awaiting i"
  have old: "k < length ws \<Longrightarrow> ws ! k = Awaiting i \<Longrightarrow> i \<in> awaited ws" for k
    by (metis awaited_def mem_Collect_eq nth_mem)
  show "a = b"
  proof (cases "a = w"; cases "b = w")
    assume "a = w" "b = w"
    then show ?thesis by simp
  next
    assume "a = w" "b \<noteq> w"
    with h assms(2) old [of b] show ?thesis by auto
  next
    assume "a \<noteq> w" "b = w"
    with h assms(2) old [of a] show ?thesis by auto
  next
    assume "a \<noteq> w" "b \<noteq> w"
    with h assms(1) show ?thesis by (simp add: oneWorkerEach_def)
  qed
qed

lemma set_update_cases: "y \<in> set (ws[w := x]) \<Longrightarrow> y = x \<or> y \<in> set ws"
  using set_update_subset_insert [of ws w x] by auto

subsection \<open>The invariant of the pool\<close>

definition poolInv :: "('s, 'e, 'a) task list \<Rightarrow> ('s, 'e, 'a) pool \<Rightarrow> bool" where
  "poolInv tasks p =
    (nextIndex p \<le> length tasks
     \<and> length (results p) = length tasks
     \<and> started p = [0..<nextIndex p]
     \<and> oneWorkerEach (workers p)
     \<and> awaited (workers p) \<union> fst ` set (settled p) = {0..<nextIndex p}
     \<and> awaited (workers p) \<inter> fst ` set (settled p) = {}
     \<and> distinct (map fst (settled p))
     \<and> (\<forall>i<length tasks. \<forall>v. results p ! i = Some v \<longleftrightarrow> (i, Inr v) \<in> set (settled p))
     \<and> (Finished \<in> set (workers p) \<longrightarrow> nextIndex p = length tasks)
     \<and> (\<forall>e. Failed e \<in> set (workers p) \<longrightarrow> (\<exists>i. (i, Inl e) \<in> set (settled p)))
     \<and> (\<forall>i out. (i, out) \<in> set (settled p) \<longrightarrow> (\<exists>s. fst ((tasks ! i) s) = out)))"

lemma poolInv_empty:
  "poolInv tasks \<lparr>nextIndex = 0, results = replicate (length tasks) None, workers = [],
       started = [], settled = [], shared = s\<rparr>"
  by (simp add: poolInv_def oneWorkerEach_def awaited_def)

lemma poolInv_spawn:
  assumes "poolInv tasks p" and "workerLoop (length tasks) p = (p', st)"
  shows "poolInv tasks (p'\<lparr>workers := workers p' @ [st]\<rparr>)"
proof (cases "nextIndex p < length tasks")
  case True
  with assms(2) have p': "p' = p\<lparr>nextIndex := nextIndex p + 1, started := started p @ [nextIndex p]\<rparr>"
    and st: "st = Awaiting (nextIndex p)"
    by (simp_all add: workerLoop_def)
  have "awaited (workers p) \<union> fst ` set (settled p) = {0..<nextIndex p}"
    using assms(1) unfolding poolInv_def by blast
  moreover have "nextIndex p \<notin> {0..<nextIndex p}" by simp
  ultimately have fresh: "nextIndex p \<notin> awaited (workers p)" "nextIndex p \<notin> fst ` set (settled p)"
    by blast+
  have one: "oneWorkerEach (workers p @ [st])"
    using assms(1) fresh(1) by (intro oneWorkerEach_snoc) (auto simp: poolInv_def st)
  have nofin: "Finished \<notin> set (workers p)"
    using assms(1) True unfolding poolInv_def by auto
  show ?thesis
    using assms(1) True one nofin fresh unfolding poolInv_def p'
    by (simp add: awaited_snoc awaited_single st atLeast0_lessThan_Suc)
next
  case False
  with assms(2) have p': "p' = p" and st: "st = Finished"
    by (simp_all add: workerLoop_def)
  have n: "nextIndex p = length tasks"
    using assms(1) False unfolding poolInv_def by auto
  have one: "oneWorkerEach (workers p @ [st])"
    using assms(1) by (intro oneWorkerEach_snoc) (auto simp: poolInv_def st)
  show ?thesis
    using assms(1) one n unfolding poolInv_def p'
    by (simp add: awaited_snoc awaited_single st)
qed

lemma poolInv_spawnWorkers:
  "poolInv tasks p \<Longrightarrow> poolInv tasks (spawnWorkers k (length tasks) p)"
proof (induction k arbitrary: p)
  case 0
  then show ?case by simp
next
  case (Suc k)
  obtain p' st where w: "workerLoop (length tasks) p = (p', st)"
    by (cases "workerLoop (length tasks) p")
  from poolInv_spawn [OF Suc.prems w] Suc.IH show ?case by (simp add: w)
qed

lemma workerLoop_workers: "workerLoop n p = (p', st) \<Longrightarrow> workers p' = workers p"
  by (auto simp: workerLoop_def split: if_splits)

lemma length_spawnWorkers:
  "length (workers (spawnWorkers k n p)) = length (workers p) + k"
proof (induction k arbitrary: p)
  case 0
  show ?case by simp
next
  case (Suc k)
  obtain p' st where w: "workerLoop n p = (p', st)" by (cases "workerLoop n p")
  show ?case using Suc.IH [of "p'\<lparr>workers := workers p' @ [st]\<rparr>"] workerLoop_workers [OF w]
    by (simp add: w)
qed

lemma poolInv_awaited_index:
  assumes "poolInv tasks p" "w < length (workers p)" "workers p ! w = Awaiting i"
  shows "i < nextIndex p" and "i < length tasks" and "i \<in> awaited (workers p)"
    and "i \<notin> fst ` set (settled p)"
proof -
  show a: "i \<in> awaited (workers p)"
    using assms(2,3) by (metis awaited_def mem_Collect_eq nth_mem)
  have u: "awaited (workers p) \<union> fst ` set (settled p) = {0..<nextIndex p}"
    and d: "awaited (workers p) \<inter> fst ` set (settled p) = {}"
    and n: "nextIndex p \<le> length tasks"
    using assms(1) unfolding poolInv_def by blast+
  from a u show "i < nextIndex p" by auto
  with n show "i < length tasks" by simp
  from a d show "i \<notin> fst ` set (settled p)" by blast
qed

lemma poolInv_fulfil:
  assumes inv: "poolInv tasks p" and w: "w < length (workers p)" "workers p ! w = Awaiting i"
    and out: "(tasks ! i) (shared p) = (Inr v, s')"
  shows "poolInv tasks
    (case workerLoop (length tasks)
            (p\<lparr>results := (results p)[i := Some v],
               settled := settled p @ [(i, Inr v)], shared := s'\<rparr>) of
       (p', st) \<Rightarrow> p'\<lparr>workers := (workers p')[w := st]\<rparr>)"
proof -
  note idx = poolInv_awaited_index [OF inv w]
  have n: "nextIndex p \<le> length tasks" and len: "length (results p) = length tasks"
    and st: "started p = [0..<nextIndex p]" and one: "oneWorkerEach (workers p)"
    and un: "awaited (workers p) \<union> fst ` set (settled p) = {0..<nextIndex p}"
    and dj: "awaited (workers p) \<inter> fst ` set (settled p) = {}"
    and di: "distinct (map fst (settled p))"
    and res: "\<forall>j<length tasks. \<forall>x. results p ! j = Some x \<longleftrightarrow> (j, Inr x) \<in> set (settled p)"
    and fin: "Finished \<in> set (workers p) \<longrightarrow> nextIndex p = length tasks"
    and fl: "\<forall>e. Failed e \<in> set (workers p) \<longrightarrow> (\<exists>j. (j, Inl e) \<in> set (settled p))"
    and snd: "\<forall>j out. (j, out) \<in> set (settled p) \<longrightarrow> (\<exists>s. fst ((tasks ! j) s) = out)"
    using inv unfolding poolInv_def by blast+
  have iS: "\<forall>x. (i, x) \<notin> set (settled p)" using idx(4) by force
  have res': "\<forall>j<length tasks. \<forall>x. (results p)[i := Some v] ! j = Some x
      \<longleftrightarrow> (j, Inr x) \<in> set (settled p @ [(i, Inr v)])"
    using res iS idx(2) len by (auto simp: nth_list_update)
  have snd': "\<forall>j out. (j, out) \<in> set (settled p @ [(i, Inr v)]) \<longrightarrow> (\<exists>s. fst ((tasks ! j) s) = out)"
    using snd out by (auto intro: exI [of _ "shared p"])
  have di': "distinct (map fst (settled p @ [(i, Inr v)]))"
    using di idx(4) by simp
  have fl': "\<forall>e. Failed e \<in> set ((workers p)[w := x]) \<longrightarrow> (\<exists>j. (j, Inl e) \<in> set (settled p @ [(i, Inr v)]))"
    if "\<forall>e. x \<noteq> Failed e" for x
    using fl that by (auto dest!: set_update_cases)
  show ?thesis
  proof (cases "nextIndex p < length tasks")
    case True
    let ?x = "Awaiting (nextIndex p) :: 'b worker"
    have fresh: "nextIndex p \<notin> awaited (workers p)" "nextIndex p \<notin> fst ` set (settled p)"
      using un by auto
    have one': "oneWorkerEach ((workers p)[w := ?x])"
      using one fresh(1) by (intro oneWorkerEach_update) auto
    have aw: "awaited ((workers p)[w := ?x]) = (awaited (workers p) - {i}) \<union> {nextIndex p}"
      using awaited_update [OF one w] by (simp add: awaited_single)
    have un': "awaited ((workers p)[w := ?x]) \<union> fst ` set (settled p @ [(i, Inr v)])
        = {0..<Suc (nextIndex p)}"
      unfolding aw using un idx(3) by (auto simp: atLeast0_lessThan_Suc)
    have dj': "awaited ((workers p)[w := ?x]) \<inter> fst ` set (settled p @ [(i, Inr v)]) = {}"
      unfolding aw using dj fresh idx(1) by auto
    have fin': "Finished \<notin> set ((workers p)[w := ?x])"
      using fin True by (auto dest!: set_update_cases)
    show ?thesis
      using True len st one' un' dj' di' res' fin' fl' [of ?x] snd'
      by (simp add: workerLoop_def poolInv_def)
  next
    case False
    let ?x = "Finished :: 'b worker"
    have nN: "nextIndex p = length tasks" using False n by simp
    have one': "oneWorkerEach ((workers p)[w := ?x])"
      using one by (intro oneWorkerEach_update) auto
    have aw: "awaited ((workers p)[w := ?x]) = awaited (workers p) - {i}"
      using awaited_update [OF one w] by (simp add: awaited_single)
    have un': "awaited ((workers p)[w := ?x]) \<union> fst ` set (settled p @ [(i, Inr v)])
        = {0..<nextIndex p}"
      unfolding aw using un idx(3) idx(1) by auto
    have dj': "awaited ((workers p)[w := ?x]) \<inter> fst ` set (settled p @ [(i, Inr v)]) = {}"
      unfolding aw using dj by auto
    show ?thesis
      using False nN len st one' un' dj' di' res' fl' [of ?x] snd'
      by (simp add: workerLoop_def poolInv_def)
  qed
qed

lemma poolInv_reject:
  assumes inv: "poolInv tasks p" and w: "w < length (workers p)" "workers p ! w = Awaiting i"
    and out: "(tasks ! i) (shared p) = (Inl e, s')"
  shows "poolInv tasks
    (p\<lparr>workers := (workers p)[w := Failed e],
       settled := settled p @ [(i, Inl e)], shared := s'\<rparr>)"
proof -
  note idx = poolInv_awaited_index [OF inv w]
  have n: "nextIndex p \<le> length tasks" and len: "length (results p) = length tasks"
    and st: "started p = [0..<nextIndex p]" and one: "oneWorkerEach (workers p)"
    and un: "awaited (workers p) \<union> fst ` set (settled p) = {0..<nextIndex p}"
    and dj: "awaited (workers p) \<inter> fst ` set (settled p) = {}"
    and di: "distinct (map fst (settled p))"
    and res: "\<forall>j<length tasks. \<forall>x. results p ! j = Some x \<longleftrightarrow> (j, Inr x) \<in> set (settled p)"
    and fin: "Finished \<in> set (workers p) \<longrightarrow> nextIndex p = length tasks"
    and fl: "\<forall>e. Failed e \<in> set (workers p) \<longrightarrow> (\<exists>j. (j, Inl e) \<in> set (settled p))"
    and snd: "\<forall>j out. (j, out) \<in> set (settled p) \<longrightarrow> (\<exists>s. fst ((tasks ! j) s) = out)"
    using inv unfolding poolInv_def by blast+
  let ?x = "Failed e"
  have res': "\<forall>j<length tasks. \<forall>x. results p ! j = Some x
      \<longleftrightarrow> (j, Inr x) \<in> set (settled p @ [(i, Inl e)])"
    using res by auto
  have snd': "\<forall>j out. (j, out) \<in> set (settled p @ [(i, Inl e)]) \<longrightarrow> (\<exists>s. fst ((tasks ! j) s) = out)"
    using snd out by (auto intro: exI [of _ "shared p"])
  have di': "distinct (map fst (settled p @ [(i, Inl e)]))"
    using di idx(4) by simp
  have fl': "\<forall>e'. Failed e' \<in> set ((workers p)[w := ?x]) \<longrightarrow> (\<exists>j. (j, Inl e') \<in> set (settled p @ [(i, Inl e)]))"
    using fl by (auto dest!: set_update_cases)
  have one': "oneWorkerEach ((workers p)[w := ?x])"
    using one by (intro oneWorkerEach_update) auto
  have aw: "awaited ((workers p)[w := ?x]) = awaited (workers p) - {i}"
    using awaited_update [OF one w] by (simp add: awaited_single)
  have un': "awaited ((workers p)[w := ?x]) \<union> fst ` set (settled p @ [(i, Inl e)])
      = {0..<nextIndex p}"
    unfolding aw using un idx(3) idx(1) by auto
  have dj': "awaited ((workers p)[w := ?x]) \<inter> fst ` set (settled p @ [(i, Inl e)]) = {}"
    unfolding aw using dj by auto
  have fin': "Finished \<in> set ((workers p)[w := ?x]) \<longrightarrow> nextIndex p = length tasks"
    using fin by (auto dest!: set_update_cases)
  show ?thesis
    using n len st one' un' dj' di' res' fin' fl' snd'
    by (simp add: poolInv_def)
qed

lemma poolInv_settle:
  assumes "poolInv tasks p"
  shows "poolInv tasks (settle tasks p w)"
proof (cases "w < length (workers p)")
  case False
  with assms show ?thesis by (simp add: settle_def)
next
  case True
  show ?thesis
  proof (cases "workers p ! w")
    case (Awaiting i)
    have i: "i < length tasks" using poolInv_awaited_index(2) [OF assms True Awaiting] .
    obtain out s' where o: "(tasks ! i) (shared p) = (out, s')"
      by (cases "(tasks ! i) (shared p)")
    show ?thesis
    proof (cases out)
      case (Inl e)
      with poolInv_reject [OF assms True Awaiting, of e s'] o True Awaiting i
      show ?thesis by (simp add: settle_def)
    next
      case (Inr v)
      with poolInv_fulfil [OF assms True Awaiting, of v s'] o True Awaiting i
      show ?thesis by (simp add: settle_def)
    qed
  next
    case Finished
    with assms True show ?thesis by (simp add: settle_def)
  next
    case (Failed e)
    with assms True show ?thesis by (simp add: settle_def)
  qed
qed

lemma poolInv_runPool: "poolInv tasks (runPool tasks c s schedule)"
proof -
  have start: "poolInv tasks (startPool tasks c s)"
    unfolding startPool_def by (intro poolInv_spawnWorkers poolInv_empty)
  have "poolInv tasks p \<Longrightarrow> poolInv tasks (foldl (settle tasks) p schedule)" for p
    by (induction schedule arbitrary: p) (simp_all add: poolInv_settle)
  with start show ?thesis by (simp add: runPool_def)
qed

subsection \<open>Runs to the end\<close>

lemma length_workers_settle: "length (workers (settle tasks p w)) = length (workers p)"
  by (auto simp: settle_def workerLoop_def split: worker.splits sum.splits prod.splits)

lemma length_workers_runPool:
  "length (workers (runPool tasks c s schedule)) = min c (length tasks)"
proof -
  have "length (workers (foldl (settle tasks) p schedule)) = length (workers p)" for p
    by (induction schedule arbitrary: p) (simp_all add: length_workers_settle)
  then show ?thesis
    by (simp add: runPool_def startPool_def length_spawnWorkers)
qed

lemma spawnWorkers_settled: "settled (spawnWorkers k n p) = settled p"
  by (induction k arbitrary: p) (auto simp: workerLoop_def)

lemma settled_settle:
  assumes "poolInv tasks p" "awaiting p w"
  shows "length (settled (settle tasks p w)) = Suc (length (settled p))"
proof -
  from assms(2) obtain i where w: "w < length (workers p)" "workers p ! w = Awaiting i"
    by (auto simp: awaiting_def split: worker.splits)
  have "i < length tasks" using poolInv_awaited_index(2) [OF assms(1) w] .
  with w show ?thesis
    by (auto simp: settle_def workerLoop_def split: sum.splits prod.splits)
qed

lemma settled_possible:
  "poolInv tasks p \<Longrightarrow> possibleFrom tasks p schedule \<Longrightarrow>
   length (settled (foldl (settle tasks) p schedule)) = length (settled p) + length schedule"
proof (induction schedule arbitrary: p)
  case Nil
  show ?case by simp
next
  case (Cons w ws)
  have "length (settled (foldl (settle tasks) (settle tasks p w) ws))
      = length (settled (settle tasks p w)) + length ws"
    using Cons.prems by (intro Cons.IH poolInv_settle) simp_all
  then show ?case using settled_settle [of tasks p w] Cons.prems by simp
qed

lemma settled_index_bound:
  assumes "poolInv tasks p" "i \<in> fst ` set (settled p)"
  shows "i < length tasks"
proof -
  have "awaited (workers p) \<union> fst ` set (settled p) = {0..<nextIndex p}"
    and n: "nextIndex p \<le> length tasks"
    using assms(1) unfolding poolInv_def by blast+
  with assms(2) have "i \<in> {0..<nextIndex p}" by blast
  with n show ?thesis by simp
qed

lemma settled_are_values:
  assumes "poolInv tasks p" "\<forall>t\<in>set tasks. neverRejects t" "(i, out) \<in> set (settled p)"
  shows "\<exists>v. out = Inr v"
proof -
  have "i \<in> fst ` set (settled p)" using assms(3) by force
  then have "i < length tasks" using settled_index_bound [OF assms(1)] by blast
  then have "neverRejects (tasks ! i)" using assms(2) by simp
  moreover obtain s where "fst ((tasks ! i) s) = out"
    using assms(1,3) unfolding poolInv_def by blast
  ultimately show ?thesis unfolding neverRejects_def by metis
qed

lemma firstRejection_None: "(\<forall>i e. (i, Inl e) \<notin> set xs) \<Longrightarrow> firstRejection xs = None"
  by (induction xs rule: firstRejection.induct) auto

lemma firstRejection_None_iff: "firstRejection xs = None \<longleftrightarrow> (\<forall>i e. (i, Inl e) \<notin> set xs)"
  by (induction xs rule: firstRejection.induct) auto

lemma no_failed_worker:
  assumes "poolInv tasks p" "\<forall>i e. (i, Inl e) \<notin> set (settled p)"
  shows "Failed e \<notin> set (workers p)"
  using assms unfolding poolInv_def by blast

lemma all_settled:
  assumes inv: "poolInv tasks p" and all: "fst ` set (settled p) = {0..<length tasks}"
  shows "nextIndex p = length tasks" and "started p = [0..<length tasks]"
    and "awaited (workers p) = {}"
    and "\<forall>i<length tasks. \<exists>v. (i, Inr v) \<in> set (settled p) \<longrightarrow> results p ! i = Some v"
proof -
  have n: "nextIndex p \<le> length tasks" and st: "started p = [0..<nextIndex p]"
    and un: "awaited (workers p) \<union> fst ` set (settled p) = {0..<nextIndex p}"
    and dj: "awaited (workers p) \<inter> fst ` set (settled p) = {}"
    and res: "\<forall>j<length tasks. \<forall>x. results p ! j = Some x \<longleftrightarrow> (j, Inr x) \<in> set (settled p)"
    using inv unfolding poolInv_def by blast+
  have "{0..<length tasks} \<subseteq> {0..<nextIndex p}" using un all by blast
  with n show nN: "nextIndex p = length tasks" by (cases "length tasks") auto
  with st show "started p = [0..<length tasks]" by simp
  show "awaited (workers p) = {}" using un dj all nN by auto
  show "\<forall>i<length tasks. \<exists>v. (i, Inr v) \<in> set (settled p) \<longrightarrow> results p ! i = Some v"
    using res by blast
qed

lemma settled_all_of_length:
  assumes inv: "poolInv tasks p" and len: "length (settled p) = length tasks"
  shows "fst ` set (settled p) = {0..<length tasks}"
proof -
  have n: "nextIndex p \<le> length tasks"
    and un: "awaited (workers p) \<union> fst ` set (settled p) = {0..<nextIndex p}"
    and di: "distinct (map fst (settled p))"
    using inv unfolding poolInv_def by blast+
  have sub: "fst ` set (settled p) \<subseteq> {0..<length tasks}"
  proof
    fix i assume "i \<in> fst ` set (settled p)"
    then show "i \<in> {0..<length tasks}" using settled_index_bound [OF inv] by simp
  qed
  have "card (fst ` set (settled p)) = length tasks"
    using distinct_card [OF di] len by simp
  then show ?thesis using sub by (intro card_subset_eq) simp_all
qed

lemma no_awaiting_all_finished:
  assumes "awaited ws = {}" "\<forall>e. Failed e \<notin> set ws"
  shows "list_all (\<lambda>w. w = Finished) ws"
  unfolding list_all_iff
proof
  fix w assume "w \<in> set ws"
  with assms show "w = Finished" by (cases w) (auto simp: awaited_def)
qed

lemma run_complete:
  assumes inv: "poolInv tasks p" and nr: "\<forall>t\<in>set tasks. neverRejects t"
    and len: "length (settled p) = length tasks"
  shows "allWorkers p = Fulfilled (results p)"
    and "started p = [0..<length tasks]"
    and "fst ` set (settled p) = {0..<length tasks}"
    and "\<forall>i<length tasks. \<exists>v. results p ! i = Some v \<and> (i, Inr v) \<in> set (settled p)"
proof -
  have norej: "\<forall>i e. (i, Inl e) \<notin> set (settled p)"
    using settled_are_values [OF inv nr] by fastforce
  show all: "fst ` set (settled p) = {0..<length tasks}"
    using settled_all_of_length [OF inv len] .
  note fin0 = all_settled [OF inv all]
  show "started p = [0..<length tasks]" using fin0(2) .
  have "list_all (\<lambda>w. w = Finished) (workers p)"
    using fin0(3) no_failed_worker [OF inv norej] by (intro no_awaiting_all_finished) auto
  then show "allWorkers p = Fulfilled (results p)"
    using firstRejection_None [OF norej] by (simp add: allWorkers_def)
  have res: "\<forall>j<length tasks. \<forall>x. results p ! j = Some x \<longleftrightarrow> (j, Inr x) \<in> set (settled p)"
    using inv unfolding poolInv_def by blast
  show "\<forall>i<length tasks. \<exists>v. results p ! i = Some v \<and> (i, Inr v) \<in> set (settled p)"
  proof (intro allI impI)
    fix i assume i: "i < length tasks"
    then have "i \<in> fst ` set (settled p)" using all by simp
    then obtain out where o: "(i, out) \<in> set (settled p)" by force
    then obtain v where "out = Inr v" using settled_are_values [OF inv nr] by blast
    with o res i show "\<exists>v. results p ! i = Some v \<and> (i, Inr v) \<in> set (settled p)" by blast
  qed
qed

lemma fulfilled_complete:
  assumes inv: "poolInv tasks p" and c: "1 \<le> c" and lw: "length (workers p) = min c (length tasks)"
    and ful: "allWorkers p = Fulfilled rs"
  shows "rs = results p" and "started p = [0..<length tasks]"
    and "fst ` set (settled p) = {0..<length tasks}"
    and "\<forall>i<length tasks. \<exists>v. rs ! i = Some v \<and> (i, Inr v) \<in> set (settled p)"
proof -
  from ful have norej: "firstRejection (settled p) = None"
    and fin: "list_all (\<lambda>w. w = Finished) (workers p)" and rs: "rs = results p"
    by (auto simp: allWorkers_def split: option.splits if_splits)
  show "rs = results p" by (rule rs)
  have n: "nextIndex p \<le> length tasks"
    and un: "awaited (workers p) \<union> fst ` set (settled p) = {0..<nextIndex p}"
    and finN: "Finished \<in> set (workers p) \<longrightarrow> nextIndex p = length tasks"
    and res: "\<forall>j<length tasks. \<forall>x. results p ! j = Some x \<longleftrightarrow> (j, Inr x) \<in> set (settled p)"
    using inv unfolding poolInv_def by blast+
  have aw: "awaited (workers p) = {}"
    using fin by (auto simp: awaited_def list_all_iff)
  have nN: "nextIndex p = length tasks"
  proof (cases "length tasks = 0")
    case True
    with n show ?thesis by simp
  next
    case False
    then have "workers p \<noteq> []" using lw c by (cases "workers p") (auto simp: min_def split: if_splits)
    then obtain w where "w \<in> set (workers p)" by (cases "workers p") auto
    then have "Finished \<in> set (workers p)" using fin by (auto simp: list_all_iff)
    with finN show ?thesis by simp
  qed
  show all: "fst ` set (settled p) = {0..<length tasks}" using un aw nN by simp
  show "started p = [0..<length tasks]" using all_settled(2) [OF inv all] .
  show "\<forall>i<length tasks. \<exists>v. rs ! i = Some v \<and> (i, Inr v) \<in> set (settled p)"
  proof (intro allI impI)
    fix i assume i: "i < length tasks"
    then have "i \<in> fst ` set (settled p)" using all by simp
    then obtain out where o: "(i, out) \<in> set (settled p)" by force
    have "\<exists>v. out = Inr v"
    proof (cases out)
      case (Inl e)
      with o norej show ?thesis by (simp add: firstRejection_None_iff)
    next
      case (Inr v)
      then show ?thesis by simp
    qed
    then obtain v where "out = Inr v" by blast
    with o res i rs show "\<exists>v. rs ! i = Some v \<and> (i, Inr v) \<in> set (settled p)" by blast
  qed
qed

lemma firstAwaiting_Some:
  "firstAwaiting ws = Some w \<Longrightarrow> w < length ws \<and> (\<exists>i. ws ! w = Awaiting i)"
proof (induction ws arbitrary: w)
  case Nil
  then show ?case by simp
next
  case (Cons x ws)
  then show ?case by (cases x) auto
qed

lemma firstAwaiting_exists: "awaited ws \<noteq> {} \<Longrightarrow> \<exists>w. firstAwaiting ws = Some w"
proof (induction ws)
  case Nil
  then show ?case by (simp add: awaited_def)
next
  case (Cons x ws)
  then show ?case by (cases x) (auto simp: awaited_def)
qed

lemma some_worker_awaits:
  assumes inv: "poolInv tasks p" and nr: "\<forall>t\<in>set tasks. neverRejects t"
    and c: "1 \<le> c" and lw: "length (workers p) = min c (length tasks)"
    and less: "length (settled p) < length tasks"
  shows "awaited (workers p) \<noteq> {}"
proof
  assume aw: "awaited (workers p) = {}"
  have un: "awaited (workers p) \<union> fst ` set (settled p) = {0..<nextIndex p}"
    and di: "distinct (map fst (settled p))"
    and finN: "Finished \<in> set (workers p) \<longrightarrow> nextIndex p = length tasks"
    using inv unfolding poolInv_def by blast+
  have "card (fst ` set (settled p)) = length (settled p)"
    using distinct_card [OF di] by simp
  with un aw have "nextIndex p = length (settled p)" by simp
  with less finN have nofin: "Finished \<notin> set (workers p)" by auto
  have norej: "\<forall>i e. (i, Inl e) \<notin> set (settled p)"
    using settled_are_values [OF inv nr] by fastforce
  have "workers p \<noteq> []" using lw c less by (cases "workers p") (auto simp: min_def split: if_splits)
  then obtain w where w: "w \<in> set (workers p)" by (cases "workers p") auto
  show False
  proof (cases w)
    case (Awaiting i)
    with w aw show ?thesis by (auto simp: awaited_def)
  next
    case Finished
    with w nofin show ?thesis by simp
  next
    case (Failed e)
    with w no_failed_worker [OF inv norej] show ?thesis by simp
  qed
qed

lemma eagerFrom_possible:
  assumes nr: "\<forall>t\<in>set tasks. neverRejects t" and c: "1 \<le> c"
  shows "poolInv tasks p \<Longrightarrow> length (workers p) = min c (length tasks) \<Longrightarrow>
     length (settled p) + k = length tasks \<Longrightarrow>
     possibleFrom tasks p (eagerFrom tasks p k) \<and> length (eagerFrom tasks p k) = k"
proof (induction k arbitrary: p)
  case 0
  show ?case by simp
next
  case (Suc k)
  have "awaited (workers p) \<noteq> {}"
    using Suc.prems by (intro some_worker_awaits [OF _ nr c]) simp_all
  then obtain w where f: "firstAwaiting (workers p) = Some w"
    using firstAwaiting_exists by blast
  then have aw: "awaiting p w"
    using firstAwaiting_Some [OF f] by (auto simp: awaiting_def)
  have "possibleFrom tasks (settle tasks p w) (eagerFrom tasks (settle tasks p w) k)
      \<and> length (eagerFrom tasks (settle tasks p w) k) = k"
  proof (rule Suc.IH)
    show "poolInv tasks (settle tasks p w)" using Suc.prems(1) by (rule poolInv_settle)
    show "length (workers (settle tasks p w)) = min c (length tasks)"
      using Suc.prems(2) by (simp add: length_workers_settle)
    show "length (settled (settle tasks p w)) + k = length tasks"
      using settled_settle [OF Suc.prems(1) aw] Suc.prems(3) by simp
  qed
  with f aw show ?case by simp
qed

subsection \<open>Tasks with fixed outcomes\<close>










section \<open>Conversion worker: \<open>processGroup\<close>\<close>

subsection \<open>The Markdown of a response\<close>

text \<open>
  The expression
  \<open>response.content[0].type === "text" ? response.content[0].text : ""\<close>.
  On an empty \<open>content\<close> array \<open>response.content[0]\<close> is \<open>undefined\<close> and reading its
  \<open>type\<close> throws a \<open>TypeError\<close>.
\<close>

definition extractMarkdown :: "apiMessage \<Rightarrow> thrown + string" where
  "extractMarkdown response =
    (case content response of
       [] \<Rightarrow> Inl (typeErrorUndefined ''type'')
     | TextBlock t # rest \<Rightarrow> Inr t
     | OtherBlock tag # rest \<Rightarrow> Inr [])"

text \<open>The rule of the specification: the first text block of the response, else the empty string.\<close>

fun firstTextBlock :: "contentBlock list \<Rightarrow> string" where
  "firstTextBlock [] = []"
| "firstTextBlock (TextBlock t # rest) = t"
| "firstTextBlock (OtherBlock tag # rest) = firstTextBlock rest"

fun isTextBlock :: "contentBlock \<Rightarrow> bool" where
  "isTextBlock (TextBlock t) = True"
| "isTextBlock (OtherBlock tag) = False"

text \<open>
  C2, as the code has it, for a response with at least one block. Only the first block of
  the response is looked at. When it is a text block, its text is the Markdown, and it is
  the first text block of the response. When it is not, the Markdown is the empty string and
  not an error, whatever follows; so a response with blocks and no text block among them
  gives the empty string, which is what the rule of the specification gives there; and
  a response whose first block is not text and whose second block is text gives the empty
  string too.
\<close>

theorem extractMarkdown_first_block:
  "(content response = TextBlock t # rest
        \<longrightarrow> extractMarkdown response = Inr t \<and> firstTextBlock (content response) = t)
   \<and> (content response \<noteq> [] \<and> isTextBlock (hd (content response))
        \<longrightarrow> extractMarkdown response = Inr (firstTextBlock (content response)))
   \<and> (content response = OtherBlock tag # rest \<longrightarrow> extractMarkdown response = Inr [])
   \<and> (content response \<noteq> [] \<and> \<not> isTextBlock (hd (content response))
        \<longrightarrow> extractMarkdown response = Inr [])
   \<and> (content response \<noteq> [] \<and> \<not> list_ex isTextBlock (content response)
        \<longrightarrow> extractMarkdown response = Inr []
            \<and> extractMarkdown response = Inr (firstTextBlock (content response)))
   \<and> (content response = OtherBlock tag # TextBlock t # rest
        \<longrightarrow> extractMarkdown response = Inr [] \<and> firstTextBlock (content response) = t)"
proof -
  have none: "\<not> list_ex isTextBlock bs \<Longrightarrow> firstTextBlock bs = []" for bs
    by (induction bs rule: firstTextBlock.induct) simp_all
  show ?thesis
  proof (cases "content response")
    case Nil
    then show ?thesis by simp
  next
    case (Cons b bs)
    then show ?thesis
      using none [of bs] by (cases b) (auto simp: extractMarkdown_def)
  qed
qed

definition thinkingThenText :: apiMessage where
  "thinkingThenText = \<lparr>content = [OtherBlock ''thinking'', TextBlock ''# Title''],
     stopReason = ''end_turn'', inputTokens = 10, outputTokens = 5\<rparr>"

definition emptyMessage :: apiMessage where
  "emptyMessage = \<lparr>content = [], stopReason = ''end_turn'', inputTokens = 10, outputTokens = 0\<rparr>"

definition toolUseOnly :: apiMessage where
  "toolUseOnly = \<lparr>content = [OtherBlock ''tool_use''], stopReason = ''tool_use'',
     inputTokens = 10, outputTokens = 5\<rparr>"

theorem extractMarkdown_first_block_witness:
  "extractMarkdown okMessage = Inr ''# Title''
   \<and> extractMarkdown toolUseOnly = Inr []
   \<and> extractMarkdown toolUseOnly = Inr (firstTextBlock (content toolUseOnly))
   \<and> extractMarkdown thinkingThenText = Inr []"
proof -
  have a: "content okMessage = TextBlock ''# Title'' # []"
    by (simp add: okMessage_def)
  have b: "content toolUseOnly = OtherBlock ''tool_use'' # []"
    "content toolUseOnly \<noteq> [] \<and> \<not> list_ex isTextBlock (content toolUseOnly)"
    by (simp_all add: toolUseOnly_def)
  have c: "content thinkingThenText = OtherBlock ''thinking'' # TextBlock ''# Title'' # []"
    by (simp add: thinkingThenText_def)
  have 1: "extractMarkdown okMessage = Inr ''# Title''"
    using extractMarkdown_first_block [of okMessage "''# Title''" "[]" "''x''"] a by simp
  have 2: "extractMarkdown toolUseOnly = Inr []
      \<and> extractMarkdown toolUseOnly = Inr (firstTextBlock (content toolUseOnly))"
    using extractMarkdown_first_block [of toolUseOnly "''x''" "[]" "''tool_use''"] b by blast
  have 3: "extractMarkdown thinkingThenText = Inr []"
    using extractMarkdown_first_block [of thinkingThenText "''# Title''" "[]" "''thinking''"] c by blast
  from 1 2 3 show ?thesis by blast
qed

text \<open>
  C2 as stated fails: a response whose first block is not text and whose second block is
  text gives the empty string, not the text of the second block. A response with no block
  at all gives an error, not the empty string; the code reads \<open>content[0].type\<close>
  without a test beside its fallback \<open>""\<close>, and the statement above leaves that response
  out.
\<close>

theorem extractMarkdown_second_block_counterexample:
  "firstTextBlock (content thinkingThenText) = ''# Title''
   \<and> extractMarkdown thinkingThenText = Inr []
   \<and> extractMarkdown emptyMessage = Inl (typeErrorUndefined ''type'')"
  by (simp add: extractMarkdown_def thinkingThenText_def emptyMessage_def)

subsection \<open>One unit\<close>

text \<open>
  The request to the model service: the model, the bound on the output, the inline images
  (media type and bytes; the source sends the bytes in base 64) and the parts that the
  prompt text is built from around its fixed rules: the user's instructions, the list that
  maps every image name to its URL, and the HTML.
\<close>

record apiRequest =
  reqModel :: string
  reqMaxTokens :: nat
  reqImages :: "(string \<times> buffer) list"
  reqExplanation :: string
  reqImageRefs :: "(string \<times> string) list"
  reqHtml :: string

text \<open>
  The surroundings of the import route: the credential of the process configuration, the
  working directory, and the model service. \<open>create env index request attempt\<close> is what
  \<open>client.messages.create\<close> does when the unit with that index calls it with that
  request for that attempt.
\<close>

record env =
  apiKey :: "string option"
  workDir :: string
  create :: "nat \<Rightarrow> apiRequest \<Rightarrow> nat \<Rightarrow> thrown + apiMessage"

text \<open>
  What the request-level code logs, and the state that the units of one request share: the
  page storage, and the history of log lines, service calls and sleeps.
\<close>

datatype requestLog =
  LogRequestStarted
  | LogReceived nat string
  | LogFile "string option"
  | LogNoFiles
  | LogNoApiKey
  | LogProcessingGroups nat nat
  | LogComplete nat nat nat
  | LogFatal string
  | LogFatalStack

datatype entry = RequestLine requestLog | GrouperLine groupLog | UnitEvent event

record world =
  storage :: filesystem
  history :: "entry list"

definition logged :: "world \<Rightarrow> entry list \<Rightarrow> world" where
  "logged w es = w\<lparr>history := history w @ es\<rparr>"

datatype ImportResult =
  ImportResult (resultName: string) (resultSlug: string) (success: bool) (error: "string option")

definition mimeString :: "mime \<Rightarrow> string" where
  "mimeString m =
    (case m of ImagePng \<Rightarrow> ''image/png'' | ImageJpeg \<Rightarrow> ''image/jpeg''
     | ImageGif \<Rightarrow> ''image/gif'' | ImageWebp \<Rightarrow> ''image/webp'')"

text \<open>The media type that the extension of a file name stands for.\<close>

definition extMimeOf :: "string \<Rightarrow> string" where
  "extMimeOf filename =
    (let ext = drop 1 (getExtension filename)
     in if ext = ''jpg'' then ''image/jpeg'' else ''image/'' @ ext)"

text \<open>
  The loop that reads the images: it collects the buffers for saving and the image blocks of
  the request, and stops at the first read that throws.
\<close>

fun readImages :: "progress \<Rightarrow> upload list \<Rightarrow> (string \<times> buffer) list \<Rightarrow> (string \<times> buffer) list
    \<Rightarrow> event list \<Rightarrow> (thrown + (string \<times> buffer) list \<times> (string \<times> buffer) list) \<times> event list" where
  "readImages prog [] imageBuffers blocks tr = (Inr (imageBuffers, blocks), tr)"
| "readImages prog (imgFile # imgs) imageBuffers blocks tr =
    (case fileBytes imgFile of
       Inl err \<Rightarrow> (Inl err, tr)
     | Inr buffer \<Rightarrow>
         (let detectedMime = detectMimeType buffer;
              extMime = extMimeOf (fileName imgFile);
              mediaType = (case detectedMime of Some m \<Rightarrow> mimeString m | None \<Rightarrow> extMime);
              tr1 = (case detectedMime of
                       Some m \<Rightarrow>
                         if mimeString m \<noteq> extMime
                         then tr @ [UnitLog prog (LogMimeFix (fileName imgFile) extMime (mimeString m))]
                         else tr
                     | None \<Rightarrow> tr);
              tr2 = tr1 @ [UnitLog prog (LogAddImage (fileName imgFile) mediaType)]
          in readImages prog imgs (imageBuffers @ [(fileName imgFile, buffer)])
               (blocks @ [(mediaType, buffer)]) tr2))"

text \<open>The loop that saves the images, which stops at the first write that throws.\<close>

fun saveImages :: "string \<Rightarrow> progress \<Rightarrow> string \<Rightarrow> (string \<times> buffer) list \<Rightarrow> world
    \<Rightarrow> (thrown + unit) \<times> world" where
  "saveImages cwd prog pageSlug [] w = (Inr (), w)"
| "saveImages cwd prog pageSlug ((imgName, buffer) # rest) w =
    (case saveImageToPage cwd (storage w) [pageSlug] imgName buffer of
       Inl err \<Rightarrow> (Inl err, w)
     | Inr fs' \<Rightarrow>
         saveImages cwd prog pageSlug rest
           (logged (w\<lparr>storage := fs'\<rparr>) [UnitEvent (UnitLog prog (LogSavedImage imgName pageSlug))]))"

text \<open>
  \<open>processGroup\<close>: the result it returns or the value it throws, and the state it leaves.
  What has been written and logged before a throw stays.
\<close>

definition processGroup :: "env \<Rightarrow> FileGroup \<Rightarrow> nat \<Rightarrow> nat \<Rightarrow> string \<Rightarrow> world
    \<Rightarrow> (thrown + ImportResult) \<times> world" where
  "processGroup env grp index totalUnits explanation w =
    (let prog = (index + 1, totalUnits) in
     case htmlFile grp of
       None \<Rightarrow>
         (Inr (ImportResult (name grp) (slug grp) False (Some ''No HTML file'')),
          logged w [UnitEvent (UnitLog prog (LogSkip (name grp)))])
     | Some html \<Rightarrow>
         (let w1 = logged w [UnitEvent (UnitLog prog (LogProcessing (name grp)))] in
          case fileText html of
            Inl err \<Rightarrow> (Inl err, w1)
          | Inr htmlText \<Rightarrow>
              (let w2 = logged w1 [UnitEvent (UnitLog prog (LogHtmlSize (length htmlText)))] in
               case readImages prog (imageFiles grp) [] [] [] of
                 (Inl err, tr) \<Rightarrow> (Inl err, logged w2 (map UnitEvent tr))
               | (Inr (imageBuffers, blocks), tr) \<Rightarrow>
                   (let imageRefs = map (\<lambda>img. (fileName img,
                            ''/api/notes/images/'' @ slug grp @ ''/'' @ fileName img))
                          (imageFiles grp);
                        request = \<lparr>reqModel = ''claude-sonnet-4-20250514'', reqMaxTokens = 8192,
                          reqImages = blocks, reqExplanation = explanation,
                          reqImageRefs = imageRefs, reqHtml = htmlText\<rparr>;
                        w3 = logged w2 (map UnitEvent (tr @ [UnitLog prog LogCallingApi]))
                    in case callClaudeWithRetry (create env index request) prog (name grp) of
                         (Inl err, tr') \<Rightarrow> (Inl err, logged w3 (map UnitEvent tr'))
                       | (Inr response, tr') \<Rightarrow>
                           (let w4 = logged w3 (map UnitEvent tr') in
                            case extractMarkdown response of
                              Inl err \<Rightarrow> (Inl err, w4)
                            | Inr markdown \<Rightarrow>
                                (let w5 = logged w4 [UnitEvent (UnitLog prog (LogMarkdown (length markdown)))] in
                                 case createPage (workDir env) (storage w5) [slug grp] of
                                   Inl err \<Rightarrow> (Inl err, w5)
                                 | Inr fs1 \<Rightarrow>
                                     (case savePageContent (workDir env) fs1 [slug grp] markdown of
                                        Inl err \<Rightarrow> (Inl err, w5\<lparr>storage := fs1\<rparr>)
                                      | Inr fs2 \<Rightarrow>
                                          (let w6 = logged (w5\<lparr>storage := fs2\<rparr>)
                                                 [UnitEvent (UnitLog prog (LogSavedContent (slug grp)))] in
                                           case saveImages (workDir env) prog (slug grp) imageBuffers w6 of
                                             (Inl err, w7) \<Rightarrow> (Inl err, w7)
                                           | (Inr u, w7) \<Rightarrow>
                                               (Inr (ImportResult (name grp) (slug grp) True None),
                                                logged w7 [UnitEvent (UnitLog prog (LogSuccess (name grp)))])))))))))"

section \<open>Import orchestrator: \<open>POST /api/import\<close>\<close>

definition CONCURRENCY :: nat where
  "CONCURRENCY = 3"

text \<open>
  The task that \<open>POST\<close> builds for a unit: \<open>processGroup\<close> inside \<open>try\<close>, and in the
  \<open>catch\<close> a result made from the thrown value. The task always fulfils. Before its
  call of the model service a unit only reads its files and logs; everything after the
  answer of the service runs without an \<open>await\<close>. The scheduler applies a task to the
  shared state when its promise settles, so the writes of a unit happen in one piece, as in
  the source, and its log lines stand together in the history (how the lines of different
  units interleave in the log file is not kept).
\<close>

definition errorMessageOr :: "string \<Rightarrow> thrown \<Rightarrow> string" where
  "errorMessageOr fallback err = (if instanceofError err then message err else fallback)"

definition failureResult :: "FileGroup \<Rightarrow> thrown \<Rightarrow> ImportResult" where
  "failureResult grp err =
     ImportResult (name grp) (slug grp) False (Some (errorMessageOr ''Unknown error'' err))"

definition importTask :: "env \<Rightarrow> nat \<Rightarrow> string \<Rightarrow> nat \<times> FileGroup \<Rightarrow> (world, thrown, ImportResult) task" where
  "importTask env totalUnits explanation ig =
    (\<lambda>w. case ig of (i, grp) \<Rightarrow>
       (case processGroup env grp i totalUnits explanation w of
          (Inr r, w') \<Rightarrow> (Inr r, w')
        | (Inl err, w') \<Rightarrow>
            (Inr (failureResult grp err),
             logged w'
               (UnitEvent (UnitLog (i + 1, totalUnits)
                   (LogFailed (name grp) (errorMessageOr ''Unknown error'' err)))
                # (if instanceofError err then [UnitEvent (UnitLog (i + 1, totalUnits) LogStack)] else [])))))"

text \<open>
  The request: what \<open>req.formData()\<close> gives, the \<open>explanation\<close> field (empty when absent)
  and the entries of the field \<open>files\<close>, or the value it throws. The response: a status,
  and the error or the report as its JSON body.
\<close>

record importRequest =
  formData :: "thrown + string \<times> formEntry list"

datatype importBody = ErrorBody string | ReportBody "ImportResult option list" "string list"

datatype importResponse = ImportResponse (importStatus: nat) (importBody: importBody)

text \<open>The outer \<open>catch\<close> of \<open>POST\<close>.\<close>

definition fatalError :: "thrown \<Rightarrow> world \<Rightarrow> importResponse option \<times> world" where
  "fatalError err w =
    (Some (ImportResponse 500 (ErrorBody (errorMessageOr ''Import failed'' err))),
     logged w
       (RequestLine (LogFatal (errorMessageOr ''Import failed'' err))
        # (if instanceofError err then [RequestLine LogFatalStack] else [])))"

definition countSuccess :: "ImportResult option list \<Rightarrow> nat" where
  "countSuccess rs = length (filter (\<lambda>r. case r of Some x \<Rightarrow> success x | None \<Rightarrow> False) rs)"

definition countFailed :: "ImportResult option list \<Rightarrow> nat" where
  "countFailed rs = length (filter (\<lambda>r. case r of Some x \<Rightarrow> \<not> success x | None \<Rightarrow> False) rs)"

text \<open>The tasks of a request: one for each unit, with the index of the unit.\<close>

definition importTasks :: "env \<Rightarrow> string \<Rightarrow> FileGroup list \<Rightarrow> (world, thrown, ImportResult) task list" where
  "importTasks env explanation groups =
     map (importTask env (length groups) explanation) (zip [0..<length groups] groups)"

text \<open>
  The state after the first lines of the log, one of them for each entry with its \<open>name\<close>,
  and the state in which the units start: after the lines of the grouper and the line that
  announces the run.
\<close>

definition receivedRequest :: "world \<Rightarrow> string \<Rightarrow> formEntry list \<Rightarrow> world" where
  "receivedRequest w explanation files =
     logged (logged w [RequestLine LogRequestStarted])
       (RequestLine (LogReceived (length files) (take 100 explanation))
        # map (\<lambda>f. RequestLine (LogFile (entryName f))) files)"

definition groupedRequest :: "world \<Rightarrow> string \<Rightarrow> upload list \<Rightarrow> world" where
  "groupedRequest w explanation files =
     logged (receivedRequest w explanation (map FileEntry files))
       (map GrouperLine (snd (groupFiles files))
        @ [RequestLine (LogProcessingGroups (length (fst (fst (groupFiles files)))) CONCURRENCY)])"

text \<open>
  The call \<open>groupFiles(files)\<close> on the entries as they came. The first loop of
  \<open>groupFiles\<close> hands the \<open>name\<close> of every entry to \<open>getExtension\<close>, and on an entry
  without a name \<open>filename.lastIndexOf\<close> throws a \<open>TypeError\<close>. That loop writes no
  line of the log, so either the call throws before anything is logged, or all entries are
  files and it is \<open>groupFiles\<close> on them. \<open>filesOf\<close> walks the entries as the loop does.
\<close>

fun filesOf :: "formEntry list \<Rightarrow> thrown + upload list" where
  "filesOf [] = Inr []"
| "filesOf (TextEntry s # rest) = Inl (typeErrorUndefined ''lastIndexOf'')"
| "filesOf (FileEntry f # rest) =
    (case filesOf rest of Inl err \<Rightarrow> Inl err | Inr files \<Rightarrow> Inr (f # files))"

text \<open>
  \<open>POST\<close>, under a schedule for the workers of \<open>runWithConcurrency\<close>. It has no response
  (\<open>None\<close>) as long as the promise of \<open>runWithConcurrency\<close> is pending. What is thrown
  outside the tasks, by \<open>req.formData()\<close> or by \<open>groupFiles\<close>, is caught by the outer
  \<open>catch\<close>.
\<close>

definition POST :: "env \<Rightarrow> importRequest \<Rightarrow> world \<Rightarrow> nat list \<Rightarrow> importResponse option \<times> world" where
  "POST env req w schedule =
    (case formData req of
       Inl err \<Rightarrow> fatalError err (logged w [RequestLine LogRequestStarted])
     | Inr (explanation, entries) \<Rightarrow>
         if length entries = 0
         then (Some (ImportResponse 400 (ErrorBody ''No files provided'')),
               logged (receivedRequest w explanation entries) [RequestLine LogNoFiles])
         else if apiKey env = None \<or> apiKey env = Some []
         then (Some (ImportResponse 500 (ErrorBody ''ANTHROPIC_API_KEY not configured'')),
               logged (receivedRequest w explanation entries) [RequestLine LogNoApiKey])
         else
           (case filesOf entries of
              Inl err \<Rightarrow> fatalError err (receivedRequest w explanation entries)
            | Inr files \<Rightarrow>
                (case groupFiles files of
                   ((groups, unmatched), groupLines) \<Rightarrow>
                     (let pool = runPool (importTasks env explanation groups) CONCURRENCY
                                   (groupedRequest w explanation files) schedule
                      in case allWorkers pool of
                           Pending \<Rightarrow> (None, shared pool)
                         | Rejected err \<Rightarrow> fatalError err (shared pool)
                         | Fulfilled rs \<Rightarrow>
                             (Some (ImportResponse 200 (ReportBody rs unmatched)),
                              logged (shared pool)
                                [RequestLine (LogComplete (countSuccess rs) (countFailed rs)
                                                (length unmatched))])))))"

subsection \<open>The result of a unit\<close>

text \<open>The result that the task of a unit makes from what \<open>processGroup\<close> returns or throws.\<close>

definition unitOutcome :: "FileGroup \<Rightarrow> thrown + ImportResult \<Rightarrow> ImportResult" where
  "unitOutcome grp out = (case out of Inr r \<Rightarrow> r | Inl err \<Rightarrow> failureResult grp err)"

lemma processGroup_names:
  "fst (processGroup env grp index totalUnits explanation w) = Inr r
     \<Longrightarrow> resultName r = name grp \<and> resultSlug r = slug grp"
  unfolding processGroup_def Let_def
  by (auto split: option.splits sum.splits prod.splits)

lemma unitOutcome_names:
  "resultName (unitOutcome grp (fst (processGroup env grp index totalUnits explanation w))) = name grp
   \<and> resultSlug (unitOutcome grp (fst (processGroup env grp index totalUnits explanation w))) = slug grp"
proof (cases "fst (processGroup env grp index totalUnits explanation w)")
  case (Inl err)
  then show ?thesis by (simp add: unitOutcome_def failureResult_def)
next
  case (Inr r)
  with processGroup_names [OF Inr] show ?thesis by (simp add: unitOutcome_def)
qed

lemma importTask_outcome:
  "fst (importTask env totalUnits explanation (i, grp) w)
     = Inr (unitOutcome grp (fst (processGroup env grp i totalUnits explanation w)))"
  by (auto simp: importTask_def unitOutcome_def split: prod.splits sum.splits)

lemma importTask_neverRejects: "neverRejects (importTask env totalUnits explanation ig)"
  unfolding neverRejects_def
  by (cases ig) (auto simp: importTask_outcome)

lemma importTasks_neverReject: "\<forall>t\<in>set (importTasks env explanation groups). neverRejects t"
  by (auto simp: importTasks_def importTask_neverRejects)

lemma importTasks_nth:
  "i < length groups \<Longrightarrow>
   importTasks env explanation groups ! i = importTask env (length groups) explanation (i, groups ! i)"
  by (simp add: importTasks_def)

lemma length_importTasks: "length (importTasks env explanation groups) = length groups"
  by (simp add: importTasks_def)

subsection \<open>An accepted request\<close>

lemma filesOf_files: "filesOf (map FileEntry files) = Inr files"
  by (induction files) simp_all

lemma filesOf_Inr: "filesOf entries = Inr files \<Longrightarrow> entries = map FileEntry files"
proof (induction entries arbitrary: files)
  case Nil
  then show ?case by simp
next
  case (Cons e es)
  then show ?case by (cases e) (auto split: sum.splits)
qed

lemma POST_accepted:
  assumes "formData req = Inr (explanation, map FileEntry files)" "files \<noteq> []"
    and "apiKey env = Some key" "key \<noteq> []"
  shows "POST env req w schedule =
    (let pool = runPool (importTasks env explanation (fst (fst (groupFiles files)))) CONCURRENCY
                  (groupedRequest w explanation files) schedule
     in case allWorkers pool of
          Pending \<Rightarrow> (None, shared pool)
        | Rejected err \<Rightarrow> fatalError err (shared pool)
        | Fulfilled rs \<Rightarrow>
            (Some (ImportResponse 200 (ReportBody rs (snd (fst (groupFiles files))))),
             logged (shared pool)
               [RequestLine (LogComplete (countSuccess rs) (countFailed rs)
                               (length (snd (fst (groupFiles files)))))]))"
proof -
  obtain groups unmatched groupLines where g: "groupFiles files = ((groups, unmatched), groupLines)"
    by (cases "groupFiles files"; cases "fst (groupFiles files)") auto
  have u: "snd (fst (groupFiles files)) = unmatched" "fst (fst (groupFiles files)) = groups"
    using g by simp_all
  show ?thesis unfolding u using assms by (simp add: POST_def g filesOf_files)
qed

lemma import_never_rejected:
  "allWorkers (runPool (importTasks env explanation groups) c s schedule) \<noteq> Rejected err"
proof -
  let ?tasks = "importTasks env explanation groups"
  let ?p = "runPool ?tasks c s schedule"
  have inv: "poolInv ?tasks ?p" by (rule poolInv_runPool)
  have "\<forall>i e. (i, Inl e) \<notin> set (settled ?p)"
    using settled_are_values [OF inv importTasks_neverReject] by fastforce
  then have "firstRejection (settled ?p) = None" by (rule firstRejection_None)
  then show ?thesis by (simp add: allWorkers_def)
qed

lemma import_fulfilled:
  assumes "allWorkers (runPool (importTasks env explanation groups) CONCURRENCY s schedule) = Fulfilled rs"
  shows "\<exists>xs. rs = map Some xs \<and> length xs = length groups
    \<and> (\<forall>i<length xs. \<exists>wi. xs ! i
          = unitOutcome (groups ! i) (fst (processGroup env (groups ! i) i (length groups) explanation wi)))"
proof -
  let ?tasks = "importTasks env explanation groups"
  let ?p = "runPool ?tasks CONCURRENCY s schedule"
  have inv: "poolInv ?tasks ?p" by (rule poolInv_runPool)
  have c: "1 \<le> CONCURRENCY" by (simp add: CONCURRENCY_def)
  have lw: "length (workers ?p) = min CONCURRENCY (length ?tasks)" by (rule length_workers_runPool)
  note f = fulfilled_complete [OF inv c lw assms]
  have len: "length rs = length groups"
    using inv f(1) unfolding poolInv_def by (simp add: length_importTasks)
  have each: "\<exists>wi. rs ! i = Some (unitOutcome (groups ! i)
      (fst (processGroup env (groups ! i) i (length groups) explanation wi)))"
    if i: "i < length groups" for i
  proof -
    from f(4) i obtain v where v: "rs ! i = Some v" "(i, Inr v) \<in> set (settled ?p)"
      by (auto simp: length_importTasks)
    then obtain wi where "fst ((?tasks ! i) wi) = Inr v"
      using inv unfolding poolInv_def by blast
    then have "v = unitOutcome (groups ! i)
        (fst (processGroup env (groups ! i) i (length groups) explanation wi))"
      using i by (simp add: importTasks_nth importTask_outcome)
    with v(1) show ?thesis by blast
  qed
  let ?xs = "map the rs"
  have some: "rs ! i = Some (?xs ! i)" if "i < length groups" for i
    using each [OF that] that len by auto
  have "rs = map Some ?xs"
    using some len by (intro nth_equalityI) simp_all
  moreover have "length ?xs = length groups" using len by simp
  moreover have "\<forall>i<length ?xs. \<exists>wi. ?xs ! i
          = unitOutcome (groups ! i) (fst (processGroup env (groups ! i) i (length groups) explanation wi))"
    using each some len by (metis length_map option.inject)
  ultimately show ?thesis by blast
qed

lemma import_completes:
  assumes "possible (importTasks env explanation groups) CONCURRENCY s schedule"
    and "length schedule = length groups"
  shows "\<exists>rs. allWorkers (runPool (importTasks env explanation groups) CONCURRENCY s schedule) = Fulfilled rs"
proof -
  let ?tasks = "importTasks env explanation groups"
  let ?p = "runPool ?tasks CONCURRENCY s schedule"
  let ?start = "startPool ?tasks CONCURRENCY s"
  have inv: "poolInv ?tasks ?p" by (rule poolInv_runPool)
  have inv0: "poolInv ?tasks ?start"
    unfolding startPool_def by (intro poolInv_spawnWorkers poolInv_empty)
  have s0: "settled ?start = []" by (simp add: startPool_def spawnWorkers_settled)
  have "length (settled ?p) = length ?tasks"
    using settled_possible [OF inv0, of schedule] assms
    by (simp add: possible_def runPool_def s0 length_importTasks)
  from run_complete(1) [OF inv importTasks_neverReject this] show ?thesis by blast
qed

lemma import_schedule_exists:
  "possible (importTasks env explanation groups) CONCURRENCY s
      (eagerSchedule (importTasks env explanation groups) CONCURRENCY s)
   \<and> length (eagerSchedule (importTasks env explanation groups) CONCURRENCY s) = length groups"
proof -
  let ?tasks = "importTasks env explanation groups"
  let ?start = "startPool ?tasks CONCURRENCY s"
  have c: "1 \<le> CONCURRENCY" by (simp add: CONCURRENCY_def)
  have inv0: "poolInv ?tasks ?start"
    unfolding startPool_def by (intro poolInv_spawnWorkers poolInv_empty)
  have lw0: "length (workers ?start) = min CONCURRENCY (length ?tasks)"
    by (simp add: startPool_def length_spawnWorkers)
  have s0: "settled ?start = []" by (simp add: startPool_def spawnWorkers_settled)
  show ?thesis
    using eagerFrom_possible [OF importTasks_neverReject c inv0 lw0, of "length ?tasks"]
    by (simp add: possible_def eagerSchedule_def s0 length_importTasks)
qed

subsection \<open>A request with a unit that cannot be stored\<close>

text \<open>
  A configured service that answers every call with a page of Markdown; the upload of the
  grouping example; and a notes directory in which \<open>Report\<close> is a regular file, so that
  the page of the first unit cannot be written.
\<close>

definition exampleEnv :: env where
  "exampleEnv = \<lparr>apiKey = Some ''sk-test'', workDir = ''/app'',
                  create = (\<lambda>index request attempt. Inr okMessage)\<rparr>"

definition noKeyEnv :: env where
  "noKeyEnv = \<lparr>apiKey = None, workDir = ''/app'',
                create = (\<lambda>index request attempt. Inr okMessage)\<rparr>"

definition exampleRequest :: importRequest where
  "exampleRequest = \<lparr>formData = Inr (''keep all links'', map FileEntry exampleUploads)\<rparr>"

definition blockedWorld :: world where
  "blockedWorld = \<lparr>storage = appRoot([''app'', ''notes''] \<mapsto> Dir,
                       [''app'', ''notes'', ''Report''] \<mapsto> File (Utf8 ''x'')),
                    history = []\<rparr>"

lemma blocked_run:
  "fst (POST exampleEnv exampleRequest blockedWorld [0, 1])
     = Some (ImportResponse 200
         (ReportBody
            [Some (ImportResult ''Report'' ''Report'' False (Some ''ENOTDIR'')),
             Some (ImportResult ''Notes'' ''Notes'' True None)]
            [''Orphan.png'']))"
  by code_simp

text \<open>
  C1. For an accepted request (form data read, its entries files and at least one of them,
  a credential): whenever
  \<open>POST\<close> responds, it responds with status 200 and a report that holds, for each unit of
  the grouper and at the index of that unit, one result; the result has the name and the slug
  of the unit, and it is what the task of that unit makes of its own \<open>processGroup\<close>: the
  result returned, or, for a thrown \<open>Error\<close>, the failure with \<open>success = false\<close> and the
  message of the error. This holds for every schedule, so for whatever the other units do.
  Every possible schedule with one step for each unit ends with a response, and there is
  such a schedule.
\<close>

theorem POST_one_result_per_unit:
  assumes "formData req = Inr (explanation, map FileEntry files)" and "files \<noteq> []"
    and "apiKey env = Some key" and "key \<noteq> []"
  shows "(\<forall>r w'. POST env req w schedule = (Some r, w') \<longrightarrow>
            (\<exists>rs. r = ImportResponse 200 (ReportBody (map Some rs) (snd (fst (groupFiles files))))
               \<and> length rs = length (fst (fst (groupFiles files)))
               \<and> (\<forall>i<length rs.
                     resultName (rs ! i) = name (fst (fst (groupFiles files)) ! i)
                     \<and> resultSlug (rs ! i) = slug (fst (fst (groupFiles files)) ! i)
                     \<and> (\<exists>wi. rs ! i = unitOutcome (fst (fst (groupFiles files)) ! i)
                            (fst (processGroup env (fst (fst (groupFiles files)) ! i) i
                                   (length (fst (fst (groupFiles files)))) explanation wi))))))
    \<and> (\<forall>grp err. instanceofError err \<longrightarrow>
            unitOutcome grp (Inl err) = ImportResult (name grp) (slug grp) False (Some (message err)))
    \<and> (\<forall>grp r. unitOutcome grp (Inr r) = r)
    \<and> (possible (importTasks env explanation (fst (fst (groupFiles files)))) CONCURRENCY
            (groupedRequest w explanation files) schedule
          \<and> length schedule = length (fst (fst (groupFiles files)))
          \<longrightarrow> (\<exists>r w'. POST env req w schedule = (Some r, w')))
    \<and> (\<exists>sch r w'. POST env req w sch = (Some r, w'))"
proof -
  let ?groups = "fst (fst (groupFiles files))"
  let ?tasks = "importTasks env explanation ?groups"
  let ?s = "groupedRequest w explanation files"
  note acc = POST_accepted [OF assms]
  have report: "\<exists>rs. r = ImportResponse 200 (ReportBody (map Some rs) (snd (fst (groupFiles files))))
               \<and> length rs = length ?groups
               \<and> (\<forall>i<length rs.
                     resultName (rs ! i) = name (?groups ! i)
                     \<and> resultSlug (rs ! i) = slug (?groups ! i)
                     \<and> (\<exists>wi. rs ! i = unitOutcome (?groups ! i)
                            (fst (processGroup env (?groups ! i) i (length ?groups) explanation wi))))"
    if p: "POST env req w schedule = (Some r, w')" for r w'
  proof -
    let ?pool = "runPool ?tasks CONCURRENCY ?s schedule"
    from p obtain ors where ful: "allWorkers ?pool = Fulfilled ors"
      and r: "r = ImportResponse 200 (ReportBody ors (snd (fst (groupFiles files))))"
      using import_never_rejected [of env explanation ?groups CONCURRENCY ?s schedule]
      by (cases "allWorkers ?pool") (auto simp: acc [of w schedule] Let_def)
    from import_fulfilled [OF ful] obtain xs where xs: "ors = map Some xs"
      "length xs = length ?groups"
      "\<forall>i<length xs. \<exists>wi. xs ! i
          = unitOutcome (?groups ! i) (fst (processGroup env (?groups ! i) i (length ?groups) explanation wi))"
      by blast
    have "resultName (xs ! i) = name (?groups ! i) \<and> resultSlug (xs ! i) = slug (?groups ! i)"
      if "i < length xs" for i
      using xs(3) that unitOutcome_names by metis
    with xs r show ?thesis by blast
  qed
  have fail: "unitOutcome grp (Inl err) = ImportResult (name grp) (slug grp) False (Some (message err))"
    if "instanceofError err" for grp err
    using that by (simp add: unitOutcome_def failureResult_def errorMessageOr_def)
  have ok: "unitOutcome grp (Inr r) = r" for grp r
    by (simp add: unitOutcome_def)
  have responds: "\<exists>r w'. POST env req w sch = (Some r, w')"
    if "possible ?tasks CONCURRENCY ?s sch \<and> length sch = length ?groups" for sch
  proof -
    from that import_completes [of env explanation ?groups ?s sch]
    obtain ors where "allWorkers (runPool ?tasks CONCURRENCY ?s sch) = Fulfilled ors" by blast
    then show ?thesis by (simp add: acc [of w sch] Let_def)
  qed
  have ex: "\<exists>sch r w'. POST env req w sch = (Some r, w')"
    using responds import_schedule_exists [of env explanation ?groups ?s] by blast
  show ?thesis
    using report fail ok responds [of schedule] ex by blast
qed

theorem POST_one_result_per_unit_witness:
  "fst (POST exampleEnv exampleRequest blockedWorld [0, 1])
     = Some (ImportResponse 200
         (ReportBody
            [Some (ImportResult ''Report'' ''Report'' False (Some ''ENOTDIR'')),
             Some (ImportResult ''Notes'' ''Notes'' True None)]
            [''Orphan.png'']))
   \<and> (\<exists>rs. fst (POST exampleEnv exampleRequest blockedWorld [0, 1])
         = Some (ImportResponse 200 (ReportBody (map Some rs) [''Orphan.png'']))
        \<and> length rs = 2 \<and> map resultName rs = [''Report'', ''Notes''])"
proof -
  have a: "formData exampleRequest = Inr (''keep all links'', map FileEntry exampleUploads)"
    "exampleUploads \<noteq> []" "apiKey exampleEnv = Some ''sk-test''" "''sk-test'' \<noteq> []"
    by (simp_all add: exampleRequest_def exampleEnv_def exampleUploads_def)
  note t = POST_one_result_per_unit [OF a, of blockedWorld "[0, 1]"]
  obtain r w' where p: "POST exampleEnv exampleRequest blockedWorld [0, 1] = (Some r, w')"
    using blocked_run by (cases "POST exampleEnv exampleRequest blockedWorld [0, 1]") auto
  with t obtain rs where rs:
    "r = ImportResponse 200 (ReportBody (map Some rs) (snd (fst (groupFiles exampleUploads))))"
    "length rs = length (fst (fst (groupFiles exampleUploads)))"
    by blast
  have r: "r = ImportResponse 200
         (ReportBody
            [Some (ImportResult ''Report'' ''Report'' False (Some ''ENOTDIR'')),
             Some (ImportResult ''Notes'' ''Notes'' True None)]
            [''Orphan.png''])"
    using blocked_run p by simp
  have m: "map Some rs = [Some (ImportResult ''Report'' ''Report'' False (Some ''ENOTDIR'')),
             Some (ImportResult ''Notes'' ''Notes'' True None)]"
    and u: "snd (fst (groupFiles exampleUploads)) = [''Orphan.png'']"
    using rs(1) r by simp_all
  have "rs = [ImportResult ''Report'' ''Report'' False (Some ''ENOTDIR''),
              ImportResult ''Notes'' ''Notes'' True None]"
    using m by (auto simp: map_eq_Cons_conv)
  then have l: "length rs = 2 \<and> map resultName rs = [''Report'', ''Notes'']" by simp
  have f: "fst (POST exampleEnv exampleRequest blockedWorld [0, 1])
         = Some (ImportResponse 200 (ReportBody (map Some rs) [''Orphan.png'']))"
    using p rs(1) u by simp
  have "\<exists>rs. fst (POST exampleEnv exampleRequest blockedWorld [0, 1])
         = Some (ImportResponse 200 (ReportBody (map Some rs) [''Orphan.png'']))
        \<and> length rs = 2 \<and> map resultName rs = [''Report'', ''Notes'']"
    using f l by (intro exI [of _ rs] conjI) (elim conjE, assumption)+
  with blocked_run show ?thesis by (rule conjI)
qed

text \<open>
  C7, as the code has it. With no file the response is the error with status 400; with files
  and no credential (absent or empty) it is the error with status 500; when the form data
  cannot be read it is the error with status 500 from the outer \<open>catch\<close>. In the three
  cases the page storage is as before, and the history has gained request lines only: no line
  of the grouper, no call of the service, no event of a unit. A request whose form data is
  read and whose entries are files, at least one, is with a credential never answered with
  an error by \<open>POST\<close> itself: its response has the status 200.
\<close>

theorem POST_input_errors:
  "(formData req = Inr (explanation, []) \<longrightarrow>
      POST env req w schedule =
        (Some (ImportResponse 400 (ErrorBody ''No files provided'')),
         w\<lparr>history := history w
               @ [RequestLine LogRequestStarted, RequestLine (LogReceived 0 (take 100 explanation)),
                  RequestLine LogNoFiles]\<rparr>))
   \<and> (formData req = Inr (explanation, entries) \<and> entries \<noteq> []
        \<and> (apiKey env = None \<or> apiKey env = Some []) \<longrightarrow>
      POST env req w schedule =
        (Some (ImportResponse 500 (ErrorBody ''ANTHROPIC_API_KEY not configured'')),
         w\<lparr>history := history w
               @ [RequestLine LogRequestStarted,
                  RequestLine (LogReceived (length entries) (take 100 explanation))]
               @ map (\<lambda>f. RequestLine (LogFile (entryName f))) entries
               @ [RequestLine LogNoApiKey]\<rparr>))
   \<and> (formData req = Inl err \<longrightarrow>
      POST env req w schedule =
        (Some (ImportResponse 500 (ErrorBody (errorMessageOr ''Import failed'' err))),
         w\<lparr>history := history w
               @ [RequestLine LogRequestStarted,
                  RequestLine (LogFatal (errorMessageOr ''Import failed'' err))]
               @ (if instanceofError err then [RequestLine LogFatalStack] else [])\<rparr>))
   \<and> (formData req = Inr (explanation, map FileEntry files) \<and> files \<noteq> []
        \<and> apiKey env = Some key \<and> key \<noteq> []
        \<longrightarrow> (\<forall>r w'. POST env req w schedule = (Some r, w') \<longrightarrow> importStatus r = 200))"
proof -
  have ok: "importStatus r = 200"
    if a: "formData req = Inr (explanation, map FileEntry files)" "files \<noteq> []"
      "apiKey env = Some key" "key \<noteq> []"
      and p: "POST env req w schedule = (Some r, w')" for r w'
  proof -
    let ?pool = "runPool (importTasks env explanation (fst (fst (groupFiles files)))) CONCURRENCY
        (groupedRequest w explanation files) schedule"
    show ?thesis
      using p import_never_rejected [of env explanation "fst (fst (groupFiles files))" CONCURRENCY
          "groupedRequest w explanation files" schedule]
      by (cases "allWorkers ?pool") (auto simp: POST_accepted [OF a, of w schedule] Let_def)
  qed
  have none: "formData req = Inr (explanation, []) \<longrightarrow>
      POST env req w schedule =
        (Some (ImportResponse 400 (ErrorBody ''No files provided'')),
         w\<lparr>history := history w
               @ [RequestLine LogRequestStarted, RequestLine (LogReceived 0 (take 100 explanation)),
                  RequestLine LogNoFiles]\<rparr>)"
    by (simp add: POST_def receivedRequest_def logged_def)
  have nokey: "formData req = Inr (explanation, entries) \<and> entries \<noteq> []
        \<and> (apiKey env = None \<or> apiKey env = Some []) \<longrightarrow>
      POST env req w schedule =
        (Some (ImportResponse 500 (ErrorBody ''ANTHROPIC_API_KEY not configured'')),
         w\<lparr>history := history w
               @ [RequestLine LogRequestStarted,
                  RequestLine (LogReceived (length entries) (take 100 explanation))]
               @ map (\<lambda>f. RequestLine (LogFile (entryName f))) entries
               @ [RequestLine LogNoApiKey]\<rparr>)"
    by (auto simp: POST_def receivedRequest_def logged_def)
  have unread: "formData req = Inl err \<longrightarrow>
      POST env req w schedule =
        (Some (ImportResponse 500 (ErrorBody (errorMessageOr ''Import failed'' err))),
         w\<lparr>history := history w
               @ [RequestLine LogRequestStarted,
                  RequestLine (LogFatal (errorMessageOr ''Import failed'' err))]
               @ (if instanceofError err then [RequestLine LogFatalStack] else [])\<rparr>)"
    by (simp add: POST_def logged_def fatalError_def)
  from none nokey unread ok show ?thesis by blast
qed

text \<open>
  A request without files, one whose form data cannot be read, and one in which a text field
  named \<open>files\<close> stands after the files.
\<close>

definition emptyRequest :: importRequest where
  "emptyRequest = \<lparr>formData = Inr ([], [])\<rparr>"

definition unreadableRequest :: importRequest where
  "unreadableRequest = \<lparr>formData = Inl (Thrown True ''Failed to parse body as FormData.'' None)\<rparr>"

definition textFieldRequest :: importRequest where
  "textFieldRequest =
     \<lparr>formData = Inr (''keep all links'', map FileEntry exampleUploads @ [TextEntry ''notes''])\<rparr>"

theorem POST_input_errors_witness:
  "fst (POST exampleEnv emptyRequest blockedWorld []) = Some (ImportResponse 400 (ErrorBody ''No files provided''))
   \<and> storage (snd (POST exampleEnv emptyRequest blockedWorld [])) = storage blockedWorld
   \<and> history (snd (POST exampleEnv emptyRequest blockedWorld []))
       = [RequestLine LogRequestStarted, RequestLine (LogReceived 0 []), RequestLine LogNoFiles]
   \<and> fst (POST noKeyEnv exampleRequest blockedWorld [])
       = Some (ImportResponse 500 (ErrorBody ''ANTHROPIC_API_KEY not configured''))
   \<and> storage (snd (POST noKeyEnv exampleRequest blockedWorld [])) = storage blockedWorld
   \<and> fst (POST exampleEnv unreadableRequest blockedWorld [])
       = Some (ImportResponse 500 (ErrorBody ''Failed to parse body as FormData.''))
   \<and> storage (snd (POST exampleEnv unreadableRequest blockedWorld [])) = storage blockedWorld
   \<and> importStatus (the (fst (POST exampleEnv exampleRequest blockedWorld [0, 1]))) = 200"
proof -
  have e: "formData emptyRequest = Inr ([], [])" by (simp add: emptyRequest_def)
  have n: "formData exampleRequest = Inr (''keep all links'', map FileEntry exampleUploads)
      \<and> map FileEntry exampleUploads \<noteq> []
      \<and> (apiKey noKeyEnv = None \<or> apiKey noKeyEnv = Some [])"
    by (simp add: exampleRequest_def noKeyEnv_def exampleUploads_def)
  have u: "formData unreadableRequest = Inl (Thrown True ''Failed to parse body as FormData.'' None)"
    by (simp add: unreadableRequest_def)
  have a: "formData exampleRequest = Inr (''keep all links'', map FileEntry exampleUploads)
      \<and> exampleUploads \<noteq> []
      \<and> apiKey exampleEnv = Some ''sk-test'' \<and> ''sk-test'' \<noteq> []"
    by (simp add: exampleRequest_def exampleEnv_def exampleUploads_def)
  have h: "history blockedWorld = []" by (simp add: blockedWorld_def)
  have 1: "fst (POST exampleEnv emptyRequest blockedWorld []) = Some (ImportResponse 400 (ErrorBody ''No files provided''))
   \<and> storage (snd (POST exampleEnv emptyRequest blockedWorld [])) = storage blockedWorld
   \<and> history (snd (POST exampleEnv emptyRequest blockedWorld []))
       = [RequestLine LogRequestStarted, RequestLine (LogReceived 0 []), RequestLine LogNoFiles]"
    using POST_input_errors [where req = emptyRequest and explanation = "[]" and env = exampleEnv
        and w = blockedWorld and schedule = "[]" and entries = "[]" and err = serverError
        and files = "[]" and key = "[]"] e h
    by simp
  have 2: "fst (POST noKeyEnv exampleRequest blockedWorld [])
       = Some (ImportResponse 500 (ErrorBody ''ANTHROPIC_API_KEY not configured''))
   \<and> storage (snd (POST noKeyEnv exampleRequest blockedWorld [])) = storage blockedWorld"
    using POST_input_errors [where req = exampleRequest and explanation = "''keep all links''"
        and env = noKeyEnv and w = blockedWorld and schedule = "[]"
        and entries = "map FileEntry exampleUploads" and err = serverError
        and files = "[]" and key = "[]"] n
    by simp
  have 3: "fst (POST exampleEnv unreadableRequest blockedWorld [])
       = Some (ImportResponse 500 (ErrorBody ''Failed to parse body as FormData.''))
   \<and> storage (snd (POST exampleEnv unreadableRequest blockedWorld [])) = storage blockedWorld"
    using POST_input_errors [where req = unreadableRequest and explanation = "[]"
        and env = exampleEnv and w = blockedWorld and schedule = "[]"
        and entries = "[]" and err = "Thrown True ''Failed to parse body as FormData.'' None"
        and files = "[]" and key = "[]"] u
    by (simp add: errorMessageOr_def)
  obtain r w' where p: "POST exampleEnv exampleRequest blockedWorld [0, 1] = (Some r, w')"
    using blocked_run by (cases "POST exampleEnv exampleRequest blockedWorld [0, 1]") auto
  have 4: "importStatus (the (fst (POST exampleEnv exampleRequest blockedWorld [0, 1]))) = 200"
    using POST_input_errors [where req = exampleRequest and explanation = "''keep all links''"
        and env = exampleEnv and w = blockedWorld and schedule = "[0, 1]"
        and entries = "[]" and err = serverError
        and files = exampleUploads and key = "''sk-test''"] a p
    by simp
  from 1 2 3 4 show ?thesis by blast
qed

text \<open>
  C7 as stated fails on the status of a missing credential, which is 500 and so not a client
  error, and on the number of conditions: form data that cannot be read is a third one. A
  fourth comes from the cast of the entries, which tests nothing: a text field named
  \<open>files\<close> is handed to \<open>groupFiles\<close>, which throws on it, and the outer \<open>catch\<close>
  answers with status 500; the statement above leaves such a request out.
\<close>

theorem POST_missing_credential_counterexample:
  "fst (POST noKeyEnv exampleRequest blockedWorld [])
     = Some (ImportResponse 500 (ErrorBody ''ANTHROPIC_API_KEY not configured''))
   \<and> \<not> (400 \<le> (500::nat) \<and> (500::nat) < 500)
   \<and> fst (POST exampleEnv unreadableRequest blockedWorld [])
     = Some (ImportResponse 500 (ErrorBody ''Failed to parse body as FormData.''))
   \<and> fst (POST exampleEnv textFieldRequest blockedWorld [])
     = Some (ImportResponse 500
         (ErrorBody ''Cannot read properties of undefined (reading 'lastIndexOf')''))"
  by code_simp

end
